theory Spec2Isabelle
  imports Complex_Main "HOL-Library.Word" "HOL-Library.Sublist"
begin

section \<open>The runtime aggregator (profiling\_runtime.c)\<close>

subsection \<open>Data model\<close>

text \<open>
  \<^verbatim>\<open>unsigned long\<close> is 64 bits wide on the LP64 platforms the runtime targets
  (pthreads, \<^verbatim>\<open>clock_gettime\<close>); \<open>count++\<close> and \<open>total_calls += ...\<close> wrap
  modulo \<open>2 ^ 64\<close>.
\<close>

type_synonym ulong = "64 word"

record timespec =
  tv_sec :: int
  tv_nsec :: int

text \<open>
  The two name fields are \<^verbatim>\<open>char[MAX_NAME_LEN]\<close> buffers: lists of \<open>MAX_NAME_LEN\<close>
  bytes. A \<^verbatim>\<open>const char*\<close> argument is modelled by the bytes it points to; the C
  string it denotes ends before the first NUL byte (or at the end of the list, where
  the terminating NUL stands).
\<close>

record ProfileEntry =
  api_name :: string
  caller_name :: string
  count :: ulong
  first_call :: timespec
  last_call :: timespec

definition MAX_ENTRIES :: nat where
  "MAX_ENTRIES = 1024"

definition MAX_NAME_LEN :: nat where
  "MAX_NAME_LEN = 256"

definition NUL :: char where
  "NUL = CHR 0x00"

definition c_str :: "string \<Rightarrow> string" where
  "c_str p = takeWhile (\<lambda>ch. ch \<noteq> NUL) p"

text \<open>
  \<^verbatim>\<open>strcmp\<close>: zero when the two C strings are equal, otherwise the sign of the
  difference of the first bytes that differ (as unsigned chars; the end of a string
  reads as NUL).
\<close>

fun strcmp_bytes :: "string \<Rightarrow> string \<Rightarrow> int" where
  "strcmp_bytes [] [] = 0"
| "strcmp_bytes [] (y # ys) = - 1"
| "strcmp_bytes (x # xs) [] = 1"
| "strcmp_bytes (x # xs) (y # ys) =
     (if x = y then strcmp_bytes xs ys
      else if (of_char x :: nat) < of_char y then - 1 else 1)"

definition strcmp :: "string \<Rightarrow> string \<Rightarrow> int" where
  "strcmp s1 s2 = strcmp_bytes (c_str s1) (c_str s2)"

text \<open>
  \<^verbatim>\<open>strncpy(dest, src, n)\<close> writes exactly \<open>n\<close> bytes: the first \<open>n\<close> bytes of
  the source string, padded with NUL when the source is shorter; no NUL is written
  when the source has \<open>n\<close> bytes or more. The bytes of \<open>dest\<close> from \<open>n\<close> on are
  untouched.
\<close>

definition strncpy :: "string \<Rightarrow> string \<Rightarrow> nat \<Rightarrow> string" where
  "strncpy dest src n =
     (let s = c_str src
      in take n s @ replicate (n - length s) NUL @ drop n dest)"

text \<open>
  The globals of the runtime: the static table, the number of entries in use, and
  the environment it reads: \<open>clock_reads\<close> counts the calls of
  \<^verbatim>\<open>clock_gettime(CLOCK_MONOTONIC, ...)\<close> made so far; the clock itself is a
  parameter \<open>clk\<close>, the \<open>k\<close>-th reading being \<open>clk k\<close>.
  \<open>num_entries\<close> is a C \<^verbatim>\<open>int\<close> that starts at 0 and is only ever incremented,
  up to \<open>MAX_ENTRIES\<close>: a natural number here.
\<close>

record rt_state =
  profile_data :: "ProfileEntry list"
  num_entries :: nat
  clock_reads :: nat

definition zero_timespec :: timespec where
  "zero_timespec = \<lparr>tv_sec = 0, tv_nsec = 0\<rparr>"

definition zero_entry :: ProfileEntry where
  "zero_entry =
     \<lparr>api_name = replicate MAX_NAME_LEN NUL, caller_name = replicate MAX_NAME_LEN NUL,
      count = 0, first_call = zero_timespec, last_call = zero_timespec\<rparr>"

text \<open>Static storage is zero-initialised.\<close>

definition init_state :: rt_state where
  "init_state =
     \<lparr>profile_data = replicate MAX_ENTRIES zero_entry, num_entries = 0, clock_reads = 0\<rparr>"

definition clock_gettime :: "(nat \<Rightarrow> timespec) \<Rightarrow> rt_state \<Rightarrow> timespec \<times> rt_state" where
  "clock_gettime clk s = (clk (clock_reads s), s\<lparr>clock_reads := Suc (clock_reads s)\<rparr>)"

subsection \<open>find\_or\_create\_entry and profiling\_log\<close>

text \<open>
  The search loop \<^verbatim>\<open>for (int i = 0; i < num_entries; i++)\<close> of
  \<^verbatim>\<open>find_or_create_entry\<close>, started at index \<open>i\<close>: the stored names are compared
  with the arguments as they were passed.
\<close>

function search_entries ::
  "ProfileEntry list \<Rightarrow> nat \<Rightarrow> string \<Rightarrow> string \<Rightarrow> nat \<Rightarrow> nat option" where
  "search_entries pd n a c i =
     (if i < n then
        (if strcmp (api_name (pd ! i)) a = 0 \<and> strcmp (caller_name (pd ! i)) c = 0
         then Some i
         else search_entries pd n a c (Suc i))
      else None)"
  by pat_completeness auto
termination
  by (relation "measure (\<lambda>(pd, n, a, c, i). n - i)") auto

text \<open>
  The result is the index of the entry, or \<open>None\<close> for the source's \<open>-1\<close> ("No
  space").
\<close>

definition find_or_create_entry ::
  "(nat \<Rightarrow> timespec) \<Rightarrow> string \<Rightarrow> string \<Rightarrow> rt_state \<Rightarrow> nat option \<times> rt_state" where
  "find_or_create_entry clk a c s =
     (case search_entries (profile_data s) (num_entries s) a c 0 of
        Some i \<Rightarrow> (Some i, s)
      | None \<Rightarrow>
          if num_entries s < MAX_ENTRIES then
            (let idx = num_entries s;
                 s1 = s\<lparr>num_entries := num_entries s + 1\<rparr>;
                 e0 = profile_data s1 ! idx;
                 e1 = e0\<lparr>api_name := strncpy (api_name e0) a (MAX_NAME_LEN - 1)\<rparr>;
                 e2 = e1\<lparr>caller_name := strncpy (caller_name e1) c (MAX_NAME_LEN - 1)\<rparr>;
                 e3 = e2\<lparr>count := 0\<rparr>;
                 (t, s2) = clock_gettime clk s1;
                 e4 = e3\<lparr>first_call := t\<rparr>
             in (Some idx, s2\<lparr>profile_data := (profile_data s2)[idx := e4]\<rparr>))
          else (None, s))"

text \<open>
  \<^verbatim>\<open>profiling_log\<close> runs between \<^verbatim>\<open>pthread_mutex_lock\<close> and
  \<^verbatim>\<open>pthread_mutex_unlock\<close> on the one global mutex, so calls are serialised: one
  call is one step on the state.
\<close>

definition profiling_log ::
  "(nat \<Rightarrow> timespec) \<Rightarrow> string \<Rightarrow> string \<Rightarrow> rt_state \<Rightarrow> rt_state" where
  "profiling_log clk a c s =
     (case find_or_create_entry clk a c s of
        (Some idx, s1) \<Rightarrow>
          (let e0 = profile_data s1 ! idx;
               e1 = e0\<lparr>count := count e0 + 1\<rparr>;
               (t, s2) = clock_gettime clk s1;
               e2 = e1\<lparr>last_call := t\<rparr>
           in s2\<lparr>profile_data := (profile_data s2)[idx := e2]\<rparr>)
      | (None, s1) \<Rightarrow> s1)"

text \<open>A sequence of calls of the logging hook, in the order they take the lock.\<close>

fun log_calls :: "(nat \<Rightarrow> timespec) \<Rightarrow> (string \<times> string) list \<Rightarrow> rt_state \<Rightarrow> rt_state" where
  "log_calls clk [] s = s"
| "log_calls clk ((a, c) # ks) s = log_calls clk ks (profiling_log clk a c s)"

subsection \<open>The exit handler write\_profile\_data\<close>

text \<open>
  The handler computes in \<^verbatim>\<open>double\<close>; the model computes the same expressions in
  exact rational arithmetic (rounding and the \<^verbatim>\<open>%.2f\<close> formatting are not
  modelled). A floating-point division by zero yields an infinity or a NaN instead of
  a number: \<open>None\<close>.
\<close>

definition fdiv :: "rat \<Rightarrow> rat \<Rightarrow> rat option" where
  "fdiv x y = (if y = 0 then None else Some (x / y))"

definition time_diff_ms :: "timespec \<Rightarrow> timespec \<Rightarrow> rat" where
  "time_diff_ms t_start t_end =
     of_int (tv_sec t_end - tv_sec t_start) * 1000
     + of_int (tv_nsec t_end - tv_nsec t_start) / 1000000"

record report_entry =
  r_api_name :: string
  r_caller_function :: string
  r_execution_count :: ulong
  r_percentage_of_total :: "rat option"
  r_duration_ms :: rat

record report =
  r_profile_data :: "report_entry list"
  r_total_dangerous_calls :: ulong
  r_unique_call_sites :: nat

text \<open>The lines printed to stdout, in order.\<close>

datatype console_line =
  Banner
| TotalCalls ulong
| UniqueSites nat
| WrittenTo string
| TopHeader
| CallSite string string ulong "rat option"

record exit_output =
  err_stream :: "string list"
  out_file :: "report option"
  console :: "console_line list"

definition sum_counts :: "ProfileEntry list \<Rightarrow> nat \<Rightarrow> ulong" where
  "sum_counts pd n = foldl (\<lambda>total i. total + count (pd ! i)) 0 [0..<n]"

definition report_line :: "ulong \<Rightarrow> ProfileEntry \<Rightarrow> report_entry" where
  "report_line total_calls e =
     (let duration = time_diff_ms (first_call e) (last_call e);
          percentage =
            (if total_calls > 0
             then fdiv (of_nat (unat (count e)) * 100) (of_nat (unat total_calls))
             else Some 0)
      in \<lparr>r_api_name = c_str (api_name e), r_caller_function = c_str (caller_name e),
          r_execution_count = count e, r_percentage_of_total = percentage,
          r_duration_ms = duration\<rparr>)"

definition console_entry :: "ulong \<Rightarrow> ProfileEntry \<Rightarrow> console_line" where
  "console_entry total_calls e =
     CallSite (c_str (caller_name e)) (c_str (api_name e)) (count e)
       (fdiv (of_nat (unat (count e)) * 100) (of_nat (unat total_calls)))"

text \<open>
  \<open>fopen_ok\<close> says whether \<^verbatim>\<open>fopen("dangerous_api_profile.json", "w")\<close> returned a
  stream. The handler assigns to no global: the state is returned as it was passed.
  It does not take \<^verbatim>\<open>profile_mutex\<close>: it reads the table as it finds it.
\<close>

definition write_profile_data :: "bool \<Rightarrow> rt_state \<Rightarrow> exit_output \<times> rt_state" where
  "write_profile_data fopen_ok s =
     (if \<not> fopen_ok then
        (\<lparr>err_stream = [''Error: Could not open output file''], out_file = None,
          console = []\<rparr>, s)
      else
        (let pd = profile_data s;
             n = num_entries s;
             total_calls = sum_counts pd n;
             entries = map (\<lambda>i. report_line total_calls (pd ! i)) [0..<n];
             rep = \<lparr>r_profile_data = entries, r_total_dangerous_calls = total_calls,
                    r_unique_call_sites = n\<rparr>;
             top = map (\<lambda>i. console_entry total_calls (pd ! i)) [0..<min n 10]
         in (\<lparr>err_stream = [], out_file = Some rep,
              console = [Banner, TotalCalls total_calls, UniqueSites n,
                         WrittenTo ''dangerous_api_profile.json'', TopHeader] @ top\<rparr>, s)))"

subsection \<open>Vocabulary of the claims about the runtime\<close>

text \<open>
  The key an entry stores, the key a call asks for as the search loop compares it, and
  the key \<^verbatim>\<open>strncpy\<close> stores for a call: each name cut to \<open>MAX_NAME_LEN - 1\<close>
  bytes.
\<close>

definition entry_key :: "ProfileEntry \<Rightarrow> string \<times> string" where
  "entry_key e = (c_str (api_name e), c_str (caller_name e))"

definition key_match :: "ProfileEntry \<Rightarrow> string \<Rightarrow> string \<Rightarrow> bool" where
  "key_match e a c = (c_str (api_name e) = c_str a \<and> c_str (caller_name e) = c_str c)"

definition key_trunc :: "string \<times> string \<Rightarrow> string \<times> string" where
  "key_trunc k =
     (take (MAX_NAME_LEN - 1) (c_str (fst k)), take (MAX_NAME_LEN - 1) (c_str (snd k)))"

text \<open>The entries in use, in table order.\<close>

definition entries :: "rt_state \<Rightarrow> ProfileEntry list" where
  "entries s = take (num_entries s) (profile_data s)"

text \<open>
  Order of two clock readings, and a monotonic clock: a later reading is never
  earlier, and every reading is normalised (\<open>0 \<le> tv_nsec < 10 ^ 9\<close>).
\<close>

definition ts_le :: "timespec \<Rightarrow> timespec \<Rightarrow> bool" where
  "ts_le t1 t2 =
     (tv_sec t1 < tv_sec t2 \<or> (tv_sec t1 = tv_sec t2 \<and> tv_nsec t1 \<le> tv_nsec t2))"

definition monotonic :: "(nat \<Rightarrow> timespec) \<Rightarrow> bool" where
  "monotonic clk =
     ((\<forall>i j. i \<le> j \<longrightarrow> ts_le (clk i) (clk j))
      \<and> (\<forall>i. 0 \<le> tv_nsec (clk i) \<and> tv_nsec (clk i) < 1000000000))"

text \<open>A clock for concrete runs: one second per reading.\<close>

definition tick_clock :: "nat \<Rightarrow> timespec" where
  "tick_clock k = \<lparr>tv_sec = int k, tv_nsec = 0\<rparr>"

text \<open>
  What holds of the table in every state the runtime reaches: the array has
  \<open>MAX_ENTRIES\<close> slots, the slots not yet in use are as static initialisation left
  them, and the names stored in the slots in use have at most \<open>MAX_NAME_LEN - 1\<close>
  bytes.
\<close>

definition table_inv :: "rt_state \<Rightarrow> bool" where
  "table_inv s =
     (length (profile_data s) = MAX_ENTRIES \<and> num_entries s \<le> MAX_ENTRIES
      \<and> (\<forall>i. num_entries s \<le> i \<and> i < MAX_ENTRIES \<longrightarrow> profile_data s ! i = zero_entry)
      \<and> (\<forall>i < num_entries s.
            length (c_str (api_name (profile_data s ! i))) < MAX_NAME_LEN
            \<and> length (c_str (caller_name (profile_data s ! i))) < MAX_NAME_LEN))"

text \<open>
  The outcomes of one call that changes the table, as state updates: a call that finds
  its entry at index \<open>i\<close> (\<open>bump_entry\<close>), and a call that creates the entry in the
  first free slot (\<open>add_entry\<close>, storing \<open>new_entry\<close>). That \<^verbatim>\<open>profiling_log\<close> is
  one of them, or leaves the state as it is, is lemma \<open>profiling_log_cases\<close>.
\<close>

definition bump_entry :: "(nat \<Rightarrow> timespec) \<Rightarrow> nat \<Rightarrow> rt_state \<Rightarrow> rt_state" where
  "bump_entry clk i s =
     s\<lparr>clock_reads := Suc (clock_reads s),
       profile_data := (profile_data s)[i := (profile_data s ! i)\<lparr>count := count (profile_data s ! i) + 1, last_call := clk (clock_reads s)\<rparr>]\<rparr>"

definition new_entry :: "(nat \<Rightarrow> timespec) \<Rightarrow> string \<Rightarrow> string \<Rightarrow> rt_state \<Rightarrow> ProfileEntry" where
  "new_entry clk a c s =
     \<lparr>api_name = strncpy (replicate MAX_NAME_LEN NUL) a (MAX_NAME_LEN - 1),
      caller_name = strncpy (replicate MAX_NAME_LEN NUL) c (MAX_NAME_LEN - 1),
      count = 1, first_call = clk (clock_reads s), last_call = clk (Suc (clock_reads s))\<rparr>"

definition add_entry :: "(nat \<Rightarrow> timespec) \<Rightarrow> string \<Rightarrow> string \<Rightarrow> rt_state \<Rightarrow> rt_state" where
  "add_entry clk a c s =
     s\<lparr>num_entries := Suc (num_entries s), clock_reads := Suc (Suc (clock_reads s)),
       profile_data := (profile_data s)[num_entries s := new_entry clk a c s]\<rparr>"

text \<open>
  The keys stored in the table, and two invariants of the reachable states: both
  timestamps of an entry in use are clock readings, \<open>first_call\<close> the earlier one; the
  counts add up to at most \<open>m\<close> (the number of calls so far) and none is zero.
\<close>

definition stored_keys :: "rt_state \<Rightarrow> (string \<times> string) set" where
  "stored_keys s = entry_key ` set (entries s)"

definition ts_inv :: "(nat \<Rightarrow> timespec) \<Rightarrow> rt_state \<Rightarrow> bool" where
  "ts_inv clk s =
     (\<forall>i < num_entries s. \<exists>j k. j < k \<and> k < clock_reads s
        \<and> first_call (profile_data s ! i) = clk j \<and> last_call (profile_data s ! i) = clk k)"

definition total_count :: "rt_state \<Rightarrow> nat" where
  "total_count s = (\<Sum>i < num_entries s. unat (count (profile_data s ! i)))"

definition counts_inv :: "nat \<Rightarrow> rt_state \<Rightarrow> bool" where
  "counts_inv m s =
     (total_count s \<le> m \<and> (\<forall>i < num_entries s. 1 \<le> unat (count (profile_data s ! i))))"

text \<open>The search loop stops at \<open>i\<close>: the first entry in use whose names are \<open>a\<close> and \<open>c\<close>.\<close>

definition first_match :: "rt_state \<Rightarrow> string \<Rightarrow> string \<Rightarrow> nat \<Rightarrow> bool" where
  "first_match s a c i =
     (i < num_entries s \<and> key_match (profile_data s ! i) a c
      \<and> (\<forall>j < i. \<not> key_match (profile_data s ! j) a c))"

text \<open>A concrete run: 1025 calls with pairwise different short names.\<close>

definition many_keys :: "(string \<times> string) list" where
  "many_keys =
     map (\<lambda>i. (replicate (i div 32) CHR ''a'', replicate (i mod 32) CHR ''b'')) [0..<1025]"

text \<open>
  The order of first appearance: \<open>first_seen xs\<close> keeps the first occurrence of every
  element of \<open>xs\<close>, in the order of \<open>xs\<close>. A pair of names is short when neither
  name is cut by \<^verbatim>\<open>strncpy\<close>.
\<close>

definition insert_new :: "'a list \<Rightarrow> 'a \<Rightarrow> 'a list" where
  "insert_new xs x = (if x \<in> set xs then xs else xs @ [x])"

definition first_seen :: "'a list \<Rightarrow> 'a list" where
  "first_seen xs = foldl insert_new [] xs"

definition short_names :: "string \<times> string \<Rightarrow> bool" where
  "short_names k =
     (length (c_str (fst k)) < MAX_NAME_LEN \<and> length (c_str (snd k)) < MAX_NAME_LEN)"

text \<open>A concrete run: calls from 11 functions, one call each.\<close>

definition eleven_keys :: "(string \<times> string) list" where
  "eleven_keys =
     [(''strcpy'', ''f0''), (''strcpy'', ''f1''), (''strcpy'', ''f2''), (''strcpy'', ''f3''),
      (''strcpy'', ''f4''), (''strcpy'', ''f5''), (''strcpy'', ''f6''), (''strcpy'', ''f7''),
      (''strcpy'', ''f8''), (''strcpy'', ''f9''), (''strcpy'', ''f10'')]"

section \<open>The instrumenter (DangerousAPIPass.cpp)\<close>

subsection \<open>The program representation\<close>

text \<open>
  What the pass reads and writes of an LLVM module. An instruction is identified by
  its address (\<open>inst_id\<close>): the pass collects \<^verbatim>\<open>CallInst*\<close> pointers and inserts
  before the instruction a pointer names. For a call instruction the first field is
  what \<^verbatim>\<open>getCalledFunction()\<close> returns: the name of the called function, or
  \<open>None\<close> (null) for an indirect call. Every instruction that is not a
  \<^verbatim>\<open>CallInst\<close> (an \<^verbatim>\<open>invoke\<close> included) is an \<open>OtherInst\<close>.
\<close>

datatype operand = GlobalString nat | OtherOperand nat

datatype opcode = CallInst "string option" "operand list" | OtherInst nat

record instruction =
  inst_id :: nat
  inst_op :: opcode

record func =
  fn_name :: string
  blocks :: "instruction list list"

text \<open>
  \<open>m_global_strings\<close> are the string constants of the module
  (\<open>GlobalString k\<close> points to the \<open>k\<close>-th), \<open>m_next_inst_id\<close> is the address the
  next instruction created gets.
\<close>

record llvm_module =
  m_functions :: "func list"
  m_global_strings :: "string list"
  m_next_inst_id :: nat

datatype PreservedAnalyses = PreservedNone | PreservedAll

definition isDeclaration :: "func \<Rightarrow> bool" where
  "isDeclaration F = (blocks F = [])"

text \<open>\<^verbatim>\<open>Function::isIntrinsic\<close>: the name starts with \<^verbatim>\<open>llvm.\<close>\<close>

definition isIntrinsic :: "string \<Rightarrow> bool" where
  "isIntrinsic name = prefix ''llvm.'' name"

definition DangerousAPIs :: "string list" where
  "DangerousAPIs = [''strcpy'']"

text \<open>
  \<^verbatim>\<open>Module::getOrInsertFunction\<close>: the function of that name if the module has
  one, otherwise a new declaration is added at the end of the function list.
\<close>

definition getOrInsertFunction :: "string \<Rightarrow> llvm_module \<Rightarrow> llvm_module" where
  "getOrInsertFunction name M =
     (if list_ex (\<lambda>F. fn_name F = name) (m_functions M) then M
      else M\<lparr>m_functions := m_functions M @ [\<lparr>fn_name = name, blocks = []\<rparr>]\<rparr>)"

subsection \<open>Scan phase\<close>

text \<open>The inner loop over \<open>DangerousAPIs\<close>, left at the first match.\<close>

fun matches_api :: "string \<Rightarrow> string list \<Rightarrow> bool" where
  "matches_api name [] = False"
| "matches_api name (api # apis) = (if name = api then True else matches_api name apis)"

definition is_dangerous_call :: "instruction \<Rightarrow> bool" where
  "is_dangerous_call I =
     (case inst_op I of
        CallInst (Some name) args \<Rightarrow> \<not> isIntrinsic name \<and> matches_api name DangerousAPIs
      | _ \<Rightarrow> False)"

text \<open>
  \<open>CallsToInstrument\<close> after the loops over the blocks of \<open>F\<close> and their
  instructions.
\<close>

definition CallsToInstrument :: "func \<Rightarrow> instruction list" where
  "CallsToInstrument F = filter is_dangerous_call (concat (blocks F))"

subsection \<open>Rewrite phase\<close>

text \<open>
  What the pass changes while it runs: the string constants of the module, the next
  free address, the lines written to \<^verbatim>\<open>errs()\<close> and the flag \<open>Modified\<close>.
\<close>

record pass_state =
  ps_globals :: "string list"
  ps_next_id :: nat
  ps_diags :: "string list"
  ps_modified :: bool

text \<open>\<^verbatim>\<open>CreateGlobalStringPtr\<close> makes a new string constant on every call.\<close>

definition CreateGlobalStringPtr :: "string \<Rightarrow> pass_state \<Rightarrow> operand \<times> pass_state" where
  "CreateGlobalStringPtr str st =
     (GlobalString (length (ps_globals st)), st\<lparr>ps_globals := ps_globals st @ [str]\<rparr>)"

text \<open>
  \<^verbatim>\<open>IRBuilder<> Builder(CI)\<close> followed by \<^verbatim>\<open>CreateCall\<close>: the new instruction
  goes into the block of the instruction at address \<open>addr\<close>, right before it.
\<close>

definition insert_before ::
  "nat \<Rightarrow> instruction \<Rightarrow> instruction list list \<Rightarrow> instruction list list" where
  "insert_before addr new bbs =
     map (\<lambda>bb. concat (map (\<lambda>I. if inst_id I = addr then [new, I] else [I]) bb)) bbs"

text \<open>
  One iteration of \<^verbatim>\<open>for (CallInst *CI : CallsToInstrument)\<close>. Every collected
  instruction is a call with a known callee; the other case is never reached.
\<close>

definition instrument_call ::
  "string \<Rightarrow> instruction \<Rightarrow> instruction list list \<times> pass_state
     \<Rightarrow> instruction list list \<times> pass_state" where
  "instrument_call caller CI acc =
     (case acc of (bbs, st) \<Rightarrow>
        (case inst_op CI of
           CallInst (Some callee) args \<Rightarrow>
             (let (APIName, st1) = CreateGlobalStringPtr callee st;
                  (CallerName, st2) = CreateGlobalStringPtr caller st1;
                  new = \<lparr>inst_id = ps_next_id st2,
                         inst_op = CallInst (Some ''profiling_log'') [APIName, CallerName]\<rparr>;
                  st3 = st2\<lparr>ps_next_id := Suc (ps_next_id st2), ps_modified := True,
                            ps_diags := ps_diags st2 @
                              [''Instrumented '' @ callee @ '' in function '' @ caller]\<rparr>
              in (insert_before (inst_id CI) new bbs, st3))
         | _ \<Rightarrow> (bbs, st)))"

text \<open>The body of \<^verbatim>\<open>for (Function &F : M)\<close>.\<close>

definition run_function :: "func \<Rightarrow> pass_state \<Rightarrow> func \<times> pass_state" where
  "run_function F st =
     (if isDeclaration F then (F, st)
      else
        (case fold (instrument_call (fn_name F)) (CallsToInstrument F) (blocks F, st) of
           (bbs, st') \<Rightarrow> (F\<lparr>blocks := bbs\<rparr>, st')))"

fun run_functions :: "func list \<Rightarrow> pass_state \<Rightarrow> func list \<times> pass_state" where
  "run_functions [] st = ([], st)"
| "run_functions (F # Fs) st =
     (case run_function F st of
        (F', st1) \<Rightarrow> (case run_functions Fs st1 of (Fs', st2) \<Rightarrow> (F' # Fs', st2)))"

text \<open>
  \<^verbatim>\<open>DangerousAPIPass::run\<close>: the module after the pass, the lines written to
  \<^verbatim>\<open>errs()\<close>, and the result.
\<close>

definition run :: "llvm_module \<Rightarrow> llvm_module \<times> string list \<times> PreservedAnalyses" where
  "run M =
     (let M1 = getOrInsertFunction ''profiling_log'' M;
          st0 = \<lparr>ps_globals = m_global_strings M1, ps_next_id = m_next_inst_id M1,
                 ps_diags = [], ps_modified = False\<rparr>
      in (case run_functions (m_functions M1) st0 of
            (Fs, st) \<Rightarrow>
              (\<lparr>m_functions = Fs, m_global_strings = ps_globals st,
                m_next_inst_id = ps_next_id st\<rparr>,
               ps_diags st,
               if ps_modified st then PreservedNone else PreservedAll)))"

subsection \<open>Vocabulary of the claims about the instrumenter\<close>

text \<open>
  Addresses are unique: no two instructions of a function share one, and every
  instruction of the module lies below the next free address.
\<close>

definition wf_function :: "nat \<Rightarrow> func \<Rightarrow> bool" where
  "wf_function next_id F =
     (distinct (map inst_id (concat (blocks F)))
      \<and> list_all (\<lambda>I. inst_id I < next_id) (concat (blocks F)))"

definition wf_module :: "llvm_module \<Rightarrow> bool" where
  "wf_module M = list_all (wf_function (m_next_inst_id M)) (m_functions M)"

definition called_name :: "instruction \<Rightarrow> string" where
  "called_name I = (case inst_op I of CallInst (Some name) args \<Rightarrow> name | _ \<Rightarrow> [])"

text \<open>
  The rewrite as the specification words it. \<open>H\<close> is a call of the logging hook
  for a call of \<open>callee\<close> in function \<open>caller\<close>: a direct call of
  \<^verbatim>\<open>profiling_log\<close> whose two arguments are string constants holding the two names
  (\<open>gs\<close> are the string constants of the module).
\<close>

definition is_hook_call :: "string list \<Rightarrow> string \<Rightarrow> string \<Rightarrow> instruction \<Rightarrow> bool" where
  "is_hook_call gs callee caller H =
     (case inst_op H of
        CallInst (Some f) [GlobalString g1, GlobalString g2] \<Rightarrow>
          f = ''profiling_log'' \<and> g1 < length gs \<and> gs ! g1 = callee
          \<and> g2 < length gs \<and> gs ! g2 = caller
      | _ \<Rightarrow> False)"

text \<open>
  Block \<open>bb'\<close> is block \<open>bb\<close> with one hook call right before every instruction that
  satisfies \<open>P\<close> and nothing else changed; the hook calls have addresses from \<open>lo\<close>
  on.
\<close>

fun hooks_inserted ::
  "(instruction \<Rightarrow> bool) \<Rightarrow> nat \<Rightarrow> string list \<Rightarrow> string
     \<Rightarrow> instruction list \<Rightarrow> instruction list \<Rightarrow> bool" where
  "hooks_inserted P lo gs caller [] bb' = (bb' = [])"
| "hooks_inserted P lo gs caller (I # bb) bb' =
     (if P I then
        (case bb' of
           H # I' # rest \<Rightarrow>
             is_hook_call gs (called_name I) caller H \<and> lo \<le> inst_id H \<and> I' = I
             \<and> hooks_inserted P lo gs caller bb rest
         | _ \<Rightarrow> False)
      else
        (case bb' of
           I' # rest \<Rightarrow> I' = I \<and> hooks_inserted P lo gs caller bb rest
         | _ \<Rightarrow> False))"

text \<open>
  Function \<open>F'\<close> is function \<open>F\<close> instrumented: same name, same blocks in the same
  order, each with a hook call right before every call the scan phase records.
\<close>

definition instrumented :: "string list \<Rightarrow> func \<Rightarrow> func \<Rightarrow> bool" where
  "instrumented gs F F' =
     (fn_name F' = fn_name F
      \<and> list_all2 (hooks_inserted is_dangerous_call 0 gs (fn_name F)) (blocks F) (blocks F'))"

text \<open>The call sites of a module: the calls the scan phase records, function by function.\<close>

definition call_sites :: "llvm_module \<Rightarrow> instruction list" where
  "call_sites M = concat (map CallsToInstrument (m_functions M))"

text \<open>
  An example module: \<^verbatim>\<open>main\<close> calls \<^verbatim>\<open>strcpy\<close>, calls through a pointer, calls
  an intrinsic and does something else; \<^verbatim>\<open>strcpy\<close> is declared only.
\<close>

definition example_main :: func where
  "example_main =
     \<lparr>fn_name = ''main'',
      blocks = [[\<lparr>inst_id = 0, inst_op = CallInst (Some ''strcpy'') [OtherOperand 0, OtherOperand 1]\<rparr>,
                 \<lparr>inst_id = 1, inst_op = CallInst None [OtherOperand 2]\<rparr>],
                [\<lparr>inst_id = 2, inst_op = CallInst (Some ''llvm.memcpy.p0.p0.i64'') [OtherOperand 3]\<rparr>,
                 \<lparr>inst_id = 3, inst_op = OtherInst 0\<rparr>]]\<rparr>"

definition example_decl :: func where
  "example_decl = \<lparr>fn_name = ''strcpy'', blocks = []\<rparr>"

definition example_module :: llvm_module where
  "example_module =
     \<lparr>m_functions = [example_main, example_decl], m_global_strings = [], m_next_inst_id = 4\<rparr>"

section \<open>Lemmas about the runtime\<close>

subsection \<open>C strings and the search loop\<close>

lemma strcmp_bytes_eq: "strcmp_bytes xs ys = 0 \<longleftrightarrow> xs = ys"
  by (induction xs ys rule: strcmp_bytes.induct) auto

lemma strcmp_eq: "strcmp s1 s2 = 0 \<longleftrightarrow> c_str s1 = c_str s2"
  by (simp add: strcmp_def strcmp_bytes_eq)

lemma c_str_no_NUL: "NUL \<notin> set (c_str p)"
  unfolding c_str_def by (auto dest: set_takeWhileD)

lemma c_str_idem: "c_str (c_str p) = c_str p"
  by (simp add: c_str_def)

lemma c_str_append_NUL: "NUL \<notin> set xs \<Longrightarrow> c_str (xs @ NUL # ys) = xs"
  by (induction xs) (auto simp: c_str_def)

lemma c_str_strncpy:
  assumes "n < length dest" "dest ! n = NUL"
  shows "c_str (strncpy dest src n) = take n (c_str src)"
proof -
  let ?s = "c_str src"
  have nn: "NUL \<notin> set (take n ?s)"
    using c_str_no_NUL [of src] by (auto dest: in_set_takeD)
  have d: "drop n dest = NUL # drop (Suc n) dest"
    using assms by (simp add: Cons_nth_drop_Suc [symmetric])
  obtain zs where "replicate (n - length ?s) NUL @ drop n dest = NUL # zs"
    using d by (cases "n - length ?s") auto
  then show ?thesis
    unfolding strncpy_def Let_def using c_str_append_NUL [OF nn] by simp
qed


declare search_entries.simps [simp del]

lemma search_entries_step:
  "search_entries pd n a c i =
     (if i < n then (if key_match (pd ! i) a c then Some i else search_entries pd n a c (Suc i)) else None)"
  by (subst search_entries.simps) (simp add: key_match_def strcmp_eq)

lemma search_entries_Some:
  "search_entries pd n a c i = Some k \<longleftrightarrow>
     i \<le> k \<and> k < n \<and> key_match (pd ! k) a c \<and> (\<forall>j. i \<le> j \<and> j < k \<longrightarrow> \<not> key_match (pd ! j) a c)"
proof (induction pd n a c i rule: search_entries.induct)
  case (1 pd n a c i)
  show ?case
  proof (cases "i < n")
    case False
    then show ?thesis by (subst search_entries_step) auto
  next
    case True
    show ?thesis
    proof (cases "key_match (pd ! i) a c")
      case m: True
      have "search_entries pd n a c i = Some i"
        using True m by (subst search_entries_step) simp
      moreover have "k = i" if "i \<le> k" "\<forall>j. i \<le> j \<and> j < k \<longrightarrow> \<not> key_match (pd ! j) a c"
        using that m by (cases "i < k") auto
      ultimately show ?thesis using True m by auto
    next
      case m: False
      have e: "search_entries pd n a c i = search_entries pd n a c (Suc i)"
        using True m by (subst search_entries_step) simp
      have ih: "search_entries pd n a c (Suc i) = Some k \<longleftrightarrow>
        Suc i \<le> k \<and> k < n \<and> key_match (pd ! k) a c \<and> (\<forall>j. Suc i \<le> j \<and> j < k \<longrightarrow> \<not> key_match (pd ! j) a c)"
        using 1 True m by (simp add: key_match_def strcmp_eq)
      have a1: "(i \<le> k \<and> key_match (pd ! k) a c) \<longleftrightarrow> (Suc i \<le> k \<and> key_match (pd ! k) a c)"
        using m by (cases "k = i") auto
      have a2: "(\<forall>j. i \<le> j \<and> j < k \<longrightarrow> \<not> key_match (pd ! j) a c) \<longleftrightarrow> (\<forall>j. Suc i \<le> j \<and> j < k \<longrightarrow> \<not> key_match (pd ! j) a c)"
      proof
        assume h: "\<forall>j. Suc i \<le> j \<and> j < k \<longrightarrow> \<not> key_match (pd ! j) a c"
        show "\<forall>j. i \<le> j \<and> j < k \<longrightarrow> \<not> key_match (pd ! j) a c"
        proof (intro allI impI)
          fix j assume "i \<le> j \<and> j < k"
          then show "\<not> key_match (pd ! j) a c" using h m by (cases "j = i") auto
        qed
      qed auto
      show ?thesis unfolding e ih using a1 a2 by blast
    qed
  qed
qed

lemma search_entries_None:
  "search_entries pd n a c i = None \<longleftrightarrow> (\<forall>j. i \<le> j \<and> j < n \<longrightarrow> \<not> key_match (pd ! j) a c)"
proof (induction pd n a c i rule: search_entries.induct)
  case (1 pd n a c i)
  show ?case
  proof (cases "i < n")
    case False
    then show ?thesis by (subst search_entries_step) auto
  next
    case True
    show ?thesis
    proof (cases "key_match (pd ! i) a c")
      case m: True
      then show ?thesis using True by (subst search_entries_step) auto
    next
      case m: False
      have e: "search_entries pd n a c i = search_entries pd n a c (Suc i)"
        using True m by (subst search_entries_step) simp
      have ih: "search_entries pd n a c (Suc i) = None \<longleftrightarrow>
        (\<forall>j. Suc i \<le> j \<and> j < n \<longrightarrow> \<not> key_match (pd ! j) a c)"
        using 1 True m by (simp add: key_match_def strcmp_eq)
      have a2: "(\<forall>j. i \<le> j \<and> j < n \<longrightarrow> \<not> key_match (pd ! j) a c) \<longleftrightarrow> (\<forall>j. Suc i \<le> j \<and> j < n \<longrightarrow> \<not> key_match (pd ! j) a c)"
      proof
        assume h: "\<forall>j. Suc i \<le> j \<and> j < n \<longrightarrow> \<not> key_match (pd ! j) a c"
        show "\<forall>j. i \<le> j \<and> j < n \<longrightarrow> \<not> key_match (pd ! j) a c"
        proof (intro allI impI)
          fix j assume "i \<le> j \<and> j < n"
          then show "\<not> key_match (pd ! j) a c" using h m by (cases "j = i") auto
        qed
      qed auto
      show ?thesis unfolding e ih using a2 by blast
    qed
  qed
qed


subsection \<open>One call of profiling\_log\<close>

lemma profiling_log_found:
  assumes "search_entries (profile_data s) (num_entries s) a c 0 = Some i"
  shows "profiling_log clk a c s =
           s\<lparr>clock_reads := Suc (clock_reads s),
             profile_data := (profile_data s)[i := (profile_data s ! i)\<lparr>count := count (profile_data s ! i) + 1, last_call := clk (clock_reads s)\<rparr>]\<rparr>"
  using assms by (simp add: profiling_log_def find_or_create_entry_def clock_gettime_def Let_def)

lemma profiling_log_dropped:
  assumes "search_entries (profile_data s) (num_entries s) a c 0 = None" "\<not> num_entries s < MAX_ENTRIES"
  shows "profiling_log clk a c s = s"
  using assms by (simp add: profiling_log_def find_or_create_entry_def)

lemma profiling_log_created:
  assumes "search_entries (profile_data s) (num_entries s) a c 0 = None" "num_entries s < MAX_ENTRIES"
    "length (profile_data s) = MAX_ENTRIES"
  shows "profiling_log clk a c s =
           s\<lparr>num_entries := Suc (num_entries s), clock_reads := Suc (Suc (clock_reads s)),
             profile_data := (profile_data s)[num_entries s :=
                \<lparr>api_name = strncpy (api_name (profile_data s ! num_entries s)) a (MAX_NAME_LEN - 1),
                 caller_name = strncpy (caller_name (profile_data s ! num_entries s)) c (MAX_NAME_LEN - 1),
                 count = 1, first_call = clk (clock_reads s), last_call = clk (Suc (clock_reads s))\<rparr>]\<rparr>"
  using assms by (cases "profile_data s ! num_entries s") (simp add: profiling_log_def find_or_create_entry_def clock_gettime_def Let_def)


lemma c_str_zero_strncpy:
  "c_str (strncpy (replicate MAX_NAME_LEN NUL) src (MAX_NAME_LEN - 1)) = take (MAX_NAME_LEN - 1) (c_str src)"
  by (rule c_str_strncpy) (simp_all add: MAX_NAME_LEN_def)

lemma entry_key_new_entry: "entry_key (new_entry clk a c s) = key_trunc (a, c)"
  by (simp add: entry_key_def new_entry_def key_trunc_def c_str_zero_strncpy del: One_nat_def)

lemma profiling_log_cases [consumes 1, case_names Found Created Dropped]:
  assumes inv: "table_inv s"
  obtains i where "search_entries (profile_data s) (num_entries s) a c 0 = Some i"
      "i < num_entries s" "key_match (profile_data s ! i) a c"
      "\<forall>j < i. \<not> key_match (profile_data s ! j) a c"
      "profiling_log clk a c s = bump_entry clk i s"
  | "search_entries (profile_data s) (num_entries s) a c 0 = None"
      "\<forall>j < num_entries s. \<not> key_match (profile_data s ! j) a c"
      "num_entries s < MAX_ENTRIES"
      "profiling_log clk a c s = add_entry clk a c s"
  | "search_entries (profile_data s) (num_entries s) a c 0 = None"
      "\<forall>j < num_entries s. \<not> key_match (profile_data s ! j) a c"
      "num_entries s = MAX_ENTRIES"
      "profiling_log clk a c s = s"
proof (cases "search_entries (profile_data s) (num_entries s) a c 0")
  case (Some i)
  then have "i < num_entries s" "key_match (profile_data s ! i) a c"
    "\<forall>j < i. \<not> key_match (profile_data s ! j) a c"
    by (simp_all add: search_entries_Some)
  moreover have "profiling_log clk a c s = bump_entry clk i s"
    unfolding bump_entry_def by (rule profiling_log_found [OF Some])
  ultimately show ?thesis using Some that(1) by blast
next
  case None
  then have nm: "\<forall>j < num_entries s. \<not> key_match (profile_data s ! j) a c"
    by (simp add: search_entries_None)
  show ?thesis
  proof (cases "num_entries s < MAX_ENTRIES")
    case True
    have z: "profile_data s ! num_entries s = zero_entry"
      using inv True by (simp add: table_inv_def)
    have len: "length (profile_data s) = MAX_ENTRIES"
      using inv by (simp add: table_inv_def)
    have "profiling_log clk a c s = add_entry clk a c s"
      unfolding add_entry_def new_entry_def profiling_log_created [OF None True len] z
      by (simp add: zero_entry_def)
    then show ?thesis using None nm True that(2) by blast
  next
    case False
    then have "num_entries s = MAX_ENTRIES"
      using inv by (simp add: table_inv_def)
    moreover have "profiling_log clk a c s = s"
      by (rule profiling_log_dropped [OF None False])
    ultimately show ?thesis using None nm that(3) by blast
  qed
qed

lemma table_inv_init: "table_inv init_state"
  by (simp add: table_inv_def init_state_def)

lemma length_c_str_take: "length (take (MAX_NAME_LEN - 1) xs) < MAX_NAME_LEN"
  by (simp add: MAX_NAME_LEN_def)

lemma table_inv_bump: "table_inv s \<Longrightarrow> i < num_entries s \<Longrightarrow> table_inv (bump_entry clk i s)"
  by (auto simp: table_inv_def bump_entry_def nth_list_update)

lemma new_entry_key_lengths:
  "length (c_str (api_name (new_entry clk a c s))) < MAX_NAME_LEN"
  "length (c_str (caller_name (new_entry clk a c s))) < MAX_NAME_LEN"
proof -
  have "c_str (api_name (new_entry clk a c s)) = take (MAX_NAME_LEN - 1) (c_str a)"
    "c_str (caller_name (new_entry clk a c s)) = take (MAX_NAME_LEN - 1) (c_str c)"
    by (simp_all add: new_entry_def c_str_zero_strncpy del: One_nat_def)
  then show "length (c_str (api_name (new_entry clk a c s))) < MAX_NAME_LEN"
    "length (c_str (caller_name (new_entry clk a c s))) < MAX_NAME_LEN"
    by (simp_all add: MAX_NAME_LEN_def)
qed

lemma table_inv_add:
  assumes "table_inv s" "num_entries s < MAX_ENTRIES"
  shows "table_inv (add_entry clk a c s)"
  using assms new_entry_key_lengths [of clk a c s]
  by (auto simp: table_inv_def add_entry_def nth_list_update less_Suc_eq)

lemma table_inv_profiling_log:
  assumes "table_inv s"
  shows "table_inv (profiling_log clk a c s)"
  using assms
proof (cases rule: profiling_log_cases [where a = a and c = c and clk = clk])
  case (Found i)
  then show ?thesis using assms by (simp add: table_inv_bump)
next
  case Created
  then show ?thesis using assms by (simp add: table_inv_add)
next
  case Dropped
  then show ?thesis using assms by simp
qed

lemma table_inv_log_calls: "table_inv s \<Longrightarrow> table_inv (log_calls clk ks s)"
  by (induction clk ks s rule: log_calls.induct) (auto simp: table_inv_profiling_log)


lemma bump_entry_simps [simp]:
  "num_entries (bump_entry clk i s) = num_entries s"
  "clock_reads (bump_entry clk i s) = Suc (clock_reads s)"
  "length (profile_data (bump_entry clk i s)) = length (profile_data s)"
  by (simp_all add: bump_entry_def)

lemma bump_entry_nth:
  "i < length (profile_data s) \<Longrightarrow>
   profile_data (bump_entry clk i s) ! j =
     (if j = i then (profile_data s ! i)\<lparr>count := count (profile_data s ! i) + 1, last_call := clk (clock_reads s)\<rparr>
      else profile_data s ! j)"
  by (simp add: bump_entry_def nth_list_update)

lemma add_entry_simps [simp]:
  "num_entries (add_entry clk a c s) = Suc (num_entries s)"
  "clock_reads (add_entry clk a c s) = Suc (Suc (clock_reads s))"
  "length (profile_data (add_entry clk a c s)) = length (profile_data s)"
  by (simp_all add: add_entry_def)

lemma add_entry_nth:
  "num_entries s < length (profile_data s) \<Longrightarrow>
   profile_data (add_entry clk a c s) ! j =
     (if j = num_entries s then new_entry clk a c s else profile_data s ! j)"
  by (simp add: add_entry_def nth_list_update)

lemma new_entry_simps [simp]:
  "count (new_entry clk a c s) = 1"
  "first_call (new_entry clk a c s) = clk (clock_reads s)"
  "last_call (new_entry clk a c s) = clk (Suc (clock_reads s))"
  by (simp_all add: new_entry_def)

lemma table_inv_length: "table_inv s \<Longrightarrow> length (profile_data s) = MAX_ENTRIES"
  and table_inv_bound: "table_inv s \<Longrightarrow> num_entries s \<le> MAX_ENTRIES"
  by (simp_all add: table_inv_def)

lemma key_match_entry_key: "key_match e a c \<longleftrightarrow> entry_key e = (c_str a, c_str c)"
  by (simp add: key_match_def entry_key_def)

text \<open>One call: entries in use keep their slot, key and first\_call; the table never shrinks.\<close>

lemma profiling_log_stable:
  assumes "table_inv s" "i < num_entries s"
  shows "entry_key (profile_data (profiling_log clk a c s) ! i) = entry_key (profile_data s ! i)"
    and "first_call (profile_data (profiling_log clk a c s) ! i) = first_call (profile_data s ! i)"
    and "i < num_entries (profiling_log clk a c s)"
proof -
  have len: "length (profile_data s) = MAX_ENTRIES" and le: "num_entries s \<le> MAX_ENTRIES"
    using assms(1) by (simp_all add: table_inv_def)
  have "entry_key (profile_data (profiling_log clk a c s) ! i) = entry_key (profile_data s ! i)
      \<and> first_call (profile_data (profiling_log clk a c s) ! i) = first_call (profile_data s ! i)
      \<and> i < num_entries (profiling_log clk a c s)"
    using assms(1)
  proof (cases rule: profiling_log_cases [where a = a and c = c and clk = clk])
    case (Found k)
    then show ?thesis using assms len le
      by (simp add: bump_entry_nth entry_key_def)
  next
    case Created
    then show ?thesis using assms len le
      by (simp add: add_entry_nth)
  next
    case Dropped
    then show ?thesis using assms by simp
  qed
  then show "entry_key (profile_data (profiling_log clk a c s) ! i) = entry_key (profile_data s ! i)"
    and "first_call (profile_data (profiling_log clk a c s) ! i) = first_call (profile_data s ! i)"
    and "i < num_entries (profiling_log clk a c s)"
    by simp_all
qed

lemma num_entries_mono: "table_inv s \<Longrightarrow> num_entries s \<le> num_entries (profiling_log clk a c s)"
  by (erule profiling_log_cases [where a = a and c = c and clk = clk]) simp_all


subsection \<open>Stored keys and capacity\<close>

lemma stored_keys_iff:
  assumes "num_entries s \<le> length (profile_data s)"
  shows "x \<in> stored_keys s \<longleftrightarrow> (\<exists>i < num_entries s. entry_key (profile_data s ! i) = x)"
proof -
  have "set (entries s) = (!) (profile_data s) ` {0..<num_entries s}"
    using nth_image [OF assms] by (simp add: entries_def)
  then have "stored_keys s = (\<lambda>i. entry_key (profile_data s ! i)) ` {0..<num_entries s}"
    by (simp add: stored_keys_def image_image)
  then show ?thesis by auto
qed

lemma table_inv_le_length: "table_inv s \<Longrightarrow> num_entries s \<le> length (profile_data s)"
  by (simp add: table_inv_def)

lemma stored_keys_step:
  assumes "table_inv s"
  shows "stored_keys s \<subseteq> stored_keys (profiling_log clk a c s)"
proof
  fix x assume "x \<in> stored_keys s"
  then obtain i where i: "i < num_entries s" "entry_key (profile_data s ! i) = x"
    using stored_keys_iff [OF table_inv_le_length [OF assms]] by blast
  have "i < num_entries (profiling_log clk a c s)"
    "entry_key (profile_data (profiling_log clk a c s) ! i) = x"
    using profiling_log_stable [OF assms i(1)] i(2) by simp_all
  then show "x \<in> stored_keys (profiling_log clk a c s)"
    using stored_keys_iff [OF table_inv_le_length [OF table_inv_profiling_log [OF assms]]] by blast
qed

lemma stored_keys_log_calls:
  "table_inv s \<Longrightarrow> stored_keys s \<subseteq> stored_keys (log_calls clk ks s)"
proof (induction clk ks s rule: log_calls.induct)
  case (1 clk s)
  then show ?case by simp
next
  case (2 clk a c ks s)
  have "stored_keys s \<subseteq> stored_keys (profiling_log clk a c s)"
    by (rule stored_keys_step [OF 2(2)])
  moreover have "stored_keys (profiling_log clk a c s) \<subseteq> stored_keys (log_calls clk ks (profiling_log clk a c s))"
    by (rule 2(1) [OF table_inv_profiling_log [OF 2(2)]])
  ultimately show ?case by simp
qed

lemma num_entries_log_calls_mono:
  "table_inv s \<Longrightarrow> num_entries s \<le> num_entries (log_calls clk ks s)"
proof (induction clk ks s rule: log_calls.induct)
  case (1 clk s)
  then show ?case by simp
next
  case (2 clk a c ks s)
  have "num_entries s \<le> num_entries (profiling_log clk a c s)"
    by (rule num_entries_mono [OF 2(2)])
  moreover have "num_entries (profiling_log clk a c s) \<le> num_entries (log_calls clk ks (profiling_log clk a c s))"
    by (rule 2(1) [OF table_inv_profiling_log [OF 2(2)]])
  ultimately show ?case by simp
qed

lemma short_key_trunc:
  "length (c_str a) < MAX_NAME_LEN \<Longrightarrow> length (c_str c) < MAX_NAME_LEN \<Longrightarrow>
   key_trunc (a, c) = (c_str a, c_str c)"
  by (simp add: key_trunc_def MAX_NAME_LEN_def)

lemma key_recorded_step:
  assumes "table_inv s"
  shows "num_entries (profiling_log clk a c s) = MAX_ENTRIES
         \<or> key_trunc (a, c) \<in> stored_keys (profiling_log clk a c s)"
  using assms
proof (cases rule: profiling_log_cases [where a = a and c = c and clk = clk])
  case (Found i)
  have k: "entry_key (profile_data s ! i) = (c_str a, c_str c)"
    using Found(3) by (simp add: key_match_entry_key)
  then have "length (c_str a) < MAX_NAME_LEN" "length (c_str c) < MAX_NAME_LEN"
    using assms Found(2) by (auto simp: table_inv_def entry_key_def)
  then have "key_trunc (a, c) = entry_key (profile_data s ! i)"
    using k by (simp add: short_key_trunc)
  then have "key_trunc (a, c) \<in> stored_keys s"
    using stored_keys_iff [OF table_inv_le_length [OF assms]] Found(2) by metis
  then show ?thesis using stored_keys_step [OF assms] by blast
next
  case Created
  have inv': "table_inv (add_entry clk a c s)"
    using Created assms by (simp add: table_inv_add)
  have "entry_key (profile_data (add_entry clk a c s) ! num_entries s) = key_trunc (a, c)"
    using Created(3) assms by (simp add: add_entry_nth table_inv_length entry_key_new_entry)
  then have "key_trunc (a, c) \<in> stored_keys (add_entry clk a c s)"
    using stored_keys_iff [OF table_inv_le_length [OF inv']]
    by (metis add_entry_simps(1) lessI)
  then show ?thesis using Created by simp
next
  case Dropped
  then show ?thesis by simp
qed

lemma keys_recorded:
  assumes "table_inv s" "k \<in> set ks"
  shows "num_entries (log_calls clk ks s) = MAX_ENTRIES \<or> key_trunc k \<in> stored_keys (log_calls clk ks s)"
  using assms
proof (induction clk ks s rule: log_calls.induct)
  case (1 clk s)
  then show ?case by simp
next
  case (2 clk a c ks s)
  let ?s1 = "profiling_log clk a c s"
  have inv1: "table_inv ?s1" by (rule table_inv_profiling_log [OF 2(2)])
  show ?case
  proof (cases "k \<in> set ks")
    case True
    then show ?thesis using 2(1) [OF inv1] by simp
  next
    case False
    then have k: "k = (a, c)" using 2(3) by simp
    have mono: "num_entries ?s1 \<le> num_entries (log_calls clk ks ?s1)"
      by (rule num_entries_log_calls_mono [OF inv1])
    have bound: "num_entries (log_calls clk ks ?s1) \<le> MAX_ENTRIES"
      using table_inv_log_calls [OF inv1] by (simp add: table_inv_def)
    have keep: "stored_keys ?s1 \<subseteq> stored_keys (log_calls clk ks ?s1)"
      by (rule stored_keys_log_calls [OF inv1])
    from key_recorded_step [OF 2(2), of clk a c] show ?thesis
    proof
      assume "num_entries ?s1 = MAX_ENTRIES"
      then show ?thesis using mono bound by simp
    next
      assume "key_trunc (a, c) \<in> stored_keys ?s1"
      then show ?thesis using keep k by auto
    qed
  qed
qed

lemma card_stored_keys: "card (stored_keys s) \<le> num_entries s"
proof -
  have "card (stored_keys s) \<le> card (set (entries s))"
    unfolding stored_keys_def by (rule card_image_le) simp
  also have "\<dots> \<le> length (entries s)" by (rule card_length)
  also have "\<dots> \<le> num_entries s" by (simp add: entries_def)
  finally show ?thesis .
qed

lemma many_keys_fill_table:
  assumes "table_inv s" "MAX_ENTRIES \<le> card (key_trunc ` set ks)"
  shows "num_entries (log_calls clk ks s) = MAX_ENTRIES"
proof (rule ccontr)
  let ?s = "log_calls clk ks s"
  assume ne: "num_entries ?s \<noteq> MAX_ENTRIES"
  then have "key_trunc ` set ks \<subseteq> stored_keys ?s"
    using keys_recorded [OF assms(1)] by blast
  moreover have "finite (stored_keys ?s)" by (simp add: stored_keys_def)
  ultimately have "card (key_trunc ` set ks) \<le> card (stored_keys ?s)"
    by (simp add: card_mono)
  then have "MAX_ENTRIES \<le> num_entries ?s"
    using assms(2) card_stored_keys [of ?s] by linarith
  moreover have "num_entries ?s \<le> MAX_ENTRIES"
    using table_inv_log_calls [OF assms(1)] by (simp add: table_inv_def)
  ultimately show False using ne by simp
qed


subsection \<open>Timestamps\<close>

lemma ts_inv_init: "ts_inv clk init_state"
  by (simp add: ts_inv_def init_state_def)

lemma ts_inv_profiling_log:
  assumes inv: "table_inv s" and ts: "ts_inv clk s"
  shows "ts_inv clk (profiling_log clk a c s)"
  using inv
proof (cases rule: profiling_log_cases [where a = a and c = c and clk = clk])
  case (Found i)
  have len: "i < length (profile_data s)"
    using Found(2) inv by (simp add: table_inv_def)
  show ?thesis
    unfolding Found(5) ts_inv_def
  proof (intro allI impI)
    fix x assume "x < num_entries (bump_entry clk i s)"
    then have x: "x < num_entries s" by simp
    then obtain j k where jk: "j < k" "k < clock_reads s"
      "first_call (profile_data s ! x) = clk j" "last_call (profile_data s ! x) = clk k"
      using ts unfolding ts_inv_def by blast
    show "\<exists>j k. j < k \<and> k < clock_reads (bump_entry clk i s)
        \<and> first_call (profile_data (bump_entry clk i s) ! x) = clk j
        \<and> last_call (profile_data (bump_entry clk i s) ! x) = clk k"
    proof (cases "x = i")
      case True
      have "j < clock_reads s" using jk by simp
      then show ?thesis using True jk(3) len
        by (intro exI [of _ j] exI [of _ "clock_reads s"]) (simp add: bump_entry_nth)
    next
      case False
      then show ?thesis using jk len
        by (intro exI [of _ j] exI [of _ k]) (simp add: bump_entry_nth)
    qed
  qed
next
  case Created
  have len: "num_entries s < length (profile_data s)"
    using Created(3) inv by (simp add: table_inv_def)
  show ?thesis
    unfolding Created(4) ts_inv_def
  proof (intro allI impI)
    fix x assume "x < num_entries (add_entry clk a c s)"
    then have x: "x < num_entries s \<or> x = num_entries s" by auto
    show "\<exists>j k. j < k \<and> k < clock_reads (add_entry clk a c s)
        \<and> first_call (profile_data (add_entry clk a c s) ! x) = clk j
        \<and> last_call (profile_data (add_entry clk a c s) ! x) = clk k"
    proof (cases "x = num_entries s")
      case True
      then show ?thesis using len
        by (intro exI [of _ "clock_reads s"] exI [of _ "Suc (clock_reads s)"]) (simp add: add_entry_nth)
    next
      case False
      then have "x < num_entries s" using x by simp
      then obtain j k where jk: "j < k" "k < clock_reads s"
        "first_call (profile_data s ! x) = clk j" "last_call (profile_data s ! x) = clk k"
        using ts unfolding ts_inv_def by blast
      then show ?thesis using False len
        by (intro exI [of _ j] exI [of _ k]) (simp add: add_entry_nth)
    qed
  qed
next
  case Dropped
  then show ?thesis using ts by simp
qed

lemma ts_inv_log_calls: "table_inv s \<Longrightarrow> ts_inv clk s \<Longrightarrow> ts_inv clk (log_calls clk ks s)"
  by (induction clk ks s rule: log_calls.induct)
     (auto simp: ts_inv_profiling_log table_inv_profiling_log)

lemma time_diff_ms_nonneg:
  assumes "ts_le t1 t2" "0 \<le> tv_nsec t1" "tv_nsec t1 < 1000000000" "0 \<le> tv_nsec t2" "tv_nsec t2 < 1000000000"
  shows "0 \<le> time_diff_ms t1 t2"
proof -
  have eq: "time_diff_ms t1 t2 = of_int ((tv_sec t2 - tv_sec t1) * 1000000000 + (tv_nsec t2 - tv_nsec t1)) / 1000000"
    by (simp add: time_diff_ms_def field_simps)
  have "0 \<le> (tv_sec t2 - tv_sec t1) * 1000000000 + (tv_nsec t2 - tv_nsec t1)"
    using assms unfolding ts_le_def by auto
  then have "(0::rat) \<le> of_int ((tv_sec t2 - tv_sec t1) * 1000000000 + (tv_nsec t2 - tv_nsec t1))"
    by (simp only: of_int_0_le_iff)
  then show ?thesis unfolding eq by simp
qed

lemma ts_inv_ordered:
  assumes "ts_inv clk s" "monotonic clk" "i < num_entries s"
  shows "ts_le (first_call (profile_data s ! i)) (last_call (profile_data s ! i))"
    and "0 \<le> time_diff_ms (first_call (profile_data s ! i)) (last_call (profile_data s ! i))"
proof -
  obtain j k where jk: "j < k" "first_call (profile_data s ! i) = clk j" "last_call (profile_data s ! i) = clk k"
    using assms(1,3) unfolding ts_inv_def by blast
  have le: "ts_le (clk j) (clk k)" using assms(2) jk(1) by (simp add: monotonic_def)
  then show "ts_le (first_call (profile_data s ! i)) (last_call (profile_data s ! i))"
    using jk by simp
  have "0 \<le> time_diff_ms (clk j) (clk k)"
    using assms(2) le by (intro time_diff_ms_nonneg) (simp_all add: monotonic_def)
  then show "0 \<le> time_diff_ms (first_call (profile_data s ! i)) (last_call (profile_data s ! i))"
    using jk by simp
qed

subsection \<open>Counts\<close>

lemma unat_succ: "unat (w :: ulong) < 2 ^ 64 - 1 \<Longrightarrow> unat (w + 1) = Suc (unat w)"
  by (simp add: unat_word_ariths)

lemma total_count_bump:
  assumes "i < num_entries s" "num_entries s \<le> length (profile_data s)"
    "unat (count (profile_data s ! i)) < 2 ^ 64 - 1"
  shows "total_count (bump_entry clk i s) = Suc (total_count s)"
proof -
  let ?f = "\<lambda>j. unat (count (profile_data s ! j))"
  let ?g = "\<lambda>j. unat (count (profile_data (bump_entry clk i s) ! j))"
  have len: "i < length (profile_data s)" using assms by simp
  have gi: "?g i = Suc (?f i)"
    using len assms(3) by (simp add: bump_entry_nth unat_succ)
  have gj: "\<And>j. j \<noteq> i \<Longrightarrow> ?g j = ?f j"
    using len by (simp add: bump_entry_nth)
  have fin: "finite {..<num_entries s}" "i \<in> {..<num_entries s}" using assms by simp_all
  have "sum ?g {..<num_entries s} = ?g i + sum ?g ({..<num_entries s} - {i})"
    by (rule sum.remove [OF fin])
  also have "sum ?g ({..<num_entries s} - {i}) = sum ?f ({..<num_entries s} - {i})"
    by (rule sum.cong) (simp_all add: gj)
  also have "?g i + sum ?f ({..<num_entries s} - {i}) = Suc (?f i + sum ?f ({..<num_entries s} - {i}))"
    by (simp add: gi)
  also have "?f i + sum ?f ({..<num_entries s} - {i}) = sum ?f {..<num_entries s}"
    by (rule sum.remove [OF fin, symmetric])
  finally show ?thesis by (simp add: total_count_def)
qed

lemma total_count_add:
  assumes "num_entries s < length (profile_data s)"
  shows "total_count (add_entry clk a c s) = Suc (total_count s)"
proof -
  have "\<And>j. j < num_entries s \<Longrightarrow>
      unat (count (profile_data (add_entry clk a c s) ! j)) = unat (count (profile_data s ! j))"
    using assms by (simp add: add_entry_nth)
  then have "(\<Sum>j < num_entries s. unat (count (profile_data (add_entry clk a c s) ! j)))
      = (\<Sum>j < num_entries s. unat (count (profile_data s ! j)))"
    by (intro sum.cong) simp_all
  then show ?thesis using assms by (simp add: total_count_def add_entry_nth)
qed

lemma member_le_total:
  assumes "i < num_entries s"
  shows "unat (count (profile_data s ! i)) \<le> total_count s"
  unfolding total_count_def
  by (rule member_le_sum) (use assms in simp_all)

lemma counts_inv_profiling_log:
  assumes inv: "table_inv s" and ci: "counts_inv m s" and m: "Suc m < 2 ^ 64"
  shows "counts_inv (Suc m) (profiling_log clk a c s)"
  using inv
proof (cases rule: profiling_log_cases [where a = a and c = c and clk = clk])
  case (Found i)
  have le: "num_entries s \<le> length (profile_data s)" using inv by (simp add: table_inv_def)
  have len: "i < length (profile_data s)" using Found(2) le by simp
  have small: "unat (count (profile_data s ! i)) < 2 ^ 64 - 1"
    using member_le_total [OF Found(2)] ci m by (simp add: counts_inv_def)
  have t: "total_count (bump_entry clk i s) = Suc (total_count s)"
    by (rule total_count_bump [OF Found(2) le small])
  have "\<forall>j < num_entries s. 1 \<le> unat (count (profile_data (bump_entry clk i s) ! j))"
    using ci len small by (auto simp: counts_inv_def bump_entry_nth unat_succ)
  then show ?thesis using t ci by (simp add: Found(5) counts_inv_def)
next
  case Created
  have len: "num_entries s < length (profile_data s)"
    using Created(3) inv by (simp add: table_inv_def)
  have t: "total_count (add_entry clk a c s) = Suc (total_count s)"
    by (rule total_count_add [OF len])
  have "\<forall>j < Suc (num_entries s). 1 \<le> unat (count (profile_data (add_entry clk a c s) ! j))"
    using ci len by (auto simp: counts_inv_def add_entry_nth less_Suc_eq)
  then show ?thesis using t ci by (simp add: Created(4) counts_inv_def)
next
  case Dropped
  then show ?thesis using ci by (simp add: counts_inv_def)
qed

lemma counts_inv_log_calls:
  "table_inv s \<Longrightarrow> counts_inv m s \<Longrightarrow> m + length ks < 2 ^ 64 \<Longrightarrow>
   counts_inv (m + length ks) (log_calls clk ks s)"
proof (induction clk ks s arbitrary: m rule: log_calls.induct)
  case (1 clk s)
  then show ?case by simp
next
  case (2 clk a c ks s)
  have "counts_inv (Suc m) (profiling_log clk a c s)"
    using 2(2,3,4) by (intro counts_inv_profiling_log) simp_all
  then have "counts_inv (Suc m + length ks) (log_calls clk ks (profiling_log clk a c s))"
    using 2(4) by (intro 2(1) table_inv_profiling_log [OF 2(2)]) simp_all
  then show ?case by simp
qed

lemma counts_inv_init: "counts_inv 0 init_state"
  by (simp add: counts_inv_def total_count_def init_state_def)

lemma counts_inv_reachable:
  "length ks < 2 ^ 64 \<Longrightarrow> counts_inv (length ks) (log_calls clk ks init_state)"
  using counts_inv_log_calls [OF table_inv_init counts_inv_init, of ks clk] by simp

lemma sum_counts_of_nat: "sum_counts pd n = of_nat (\<Sum>i < n. unat (count (pd ! i)))"
proof -
  have "\<And>acc. foldl (\<lambda>total i. total + count (pd ! i)) acc [0..<n]
          = acc + of_nat (\<Sum>i < n. unat (count (pd ! i)))"
  proof (induction n)
    case 0
    show ?case by simp
  next
    case (Suc n)
    show ?case by (simp add: Suc add.assoc)
  qed
  then show ?thesis by (simp add: sum_counts_def)
qed

lemma unat_sum_counts:
  "unat (sum_counts (profile_data s) (num_entries s)) = total_count s mod 2 ^ 64"
proof -
  have "unat (of_nat (total_count s) :: ulong) = total_count s mod 2 ^ 64"
    by (simp only: unat_of_nat) simp
  then show ?thesis by (simp only: sum_counts_of_nat total_count_def)
qed

lemma total_ge_entries:
  assumes "counts_inv m s"
  shows "num_entries s \<le> total_count s"
proof -
  have "(\<Sum>i < num_entries s. 1) \<le> (\<Sum>i < num_entries s. unat (count (profile_data s ! i)))"
    using assms by (intro sum_mono) (simp add: counts_inv_def)
  then show ?thesis by (simp add: total_count_def)
qed

subsection \<open>Table order\<close>

lemma entries_reachable_nth:
  assumes "table_inv s"
  shows "map f (entries s) = map (\<lambda>i. f (profile_data s ! i)) [0..<num_entries s]"
proof -
  have "num_entries s \<le> length (profile_data s)" using assms by (simp add: table_inv_def)
  then show ?thesis
    unfolding entries_def by (auto intro!: nth_equalityI)
qed

lemma take_entries_nth:
  assumes "table_inv s"
  shows "map f (take k (entries s)) = map (\<lambda>i. f (profile_data s ! i)) [0..<min (num_entries s) k]"
proof -
  have "num_entries s \<le> length (profile_data s)" using assms by (simp add: table_inv_def)
  then show ?thesis
    unfolding entries_def by (auto intro!: nth_equalityI)
qed

lemma entries_prefix_step:
  assumes "table_inv s"
  shows "prefix (map entry_key (entries s)) (map entry_key (entries (profiling_log clk a c s)))"
proof -
  let ?s' = "profiling_log clk a c s"
  have inv': "table_inv ?s'" by (rule table_inv_profiling_log [OF assms])
  have le: "num_entries s \<le> num_entries ?s'" by (rule num_entries_mono [OF assms])
  have "map entry_key (entries s) = take (num_entries s) (map entry_key (entries ?s'))"
    unfolding entries_reachable_nth [OF assms] entries_reachable_nth [OF inv']
    using le profiling_log_stable(1) [OF assms]
    by (auto intro!: nth_equalityI simp: min_absorb2)
  then show ?thesis by (metis take_is_prefix)
qed

lemma reachable_inv: "table_inv (log_calls clk ks init_state)"
  by (rule table_inv_log_calls [OF table_inv_init])

section \<open>The claims about the exit handler's output\<close>

text \<open>
  C8: when the report file cannot be opened, the exit handler writes one error line to
  the error stream and returns: no report is written, no console summary is printed,
  and the state (the Profile Table with it) is as it was.
\<close>

theorem C8_open_failure:
  "write_profile_data False s =
     (\<lparr>err_stream = [''Error: Could not open output file''], out_file = None, console = []\<rparr>, s)"
  by (simp add: write_profile_data_def)

section \<open>The capacity of the table\<close>

lemma stored_keys_bump:
  assumes "table_inv s" "i < num_entries s"
  shows "stored_keys (bump_entry clk i s) = stored_keys s"
proof -
  have le: "num_entries s \<le> length (profile_data s)" using assms by (simp add: table_inv_def)
  have k: "\<And>j. entry_key (profile_data (bump_entry clk i s) ! j) = entry_key (profile_data s ! j)"
    using assms(2) le by (simp add: bump_entry_nth entry_key_def)
  have "\<And>x. x \<in> stored_keys (bump_entry clk i s) \<longleftrightarrow> x \<in> stored_keys s"
    using stored_keys_iff [of "bump_entry clk i s"] stored_keys_iff [OF le] le by (simp add: k)
  then show ?thesis by blast
qed

lemma stored_keys_add:
  assumes "table_inv s" "num_entries s < MAX_ENTRIES"
  shows "stored_keys (add_entry clk a c s) = insert (key_trunc (a, c)) (stored_keys s)"
proof -
  have len: "num_entries s < length (profile_data s)" using assms by (simp add: table_inv_def)
  have k: "\<And>j. entry_key (profile_data (add_entry clk a c s) ! j) =
             (if j = num_entries s then key_trunc (a, c) else entry_key (profile_data s ! j))"
    using len by (simp add: add_entry_nth entry_key_new_entry)
  have new: "\<And>x. x \<in> stored_keys (add_entry clk a c s) \<longleftrightarrow>
      (\<exists>i < Suc (num_entries s). entry_key (profile_data (add_entry clk a c s) ! i) = x)"
    using stored_keys_iff [of "add_entry clk a c s"] len by simp
  have old: "\<And>x. x \<in> stored_keys s \<longleftrightarrow> (\<exists>i < num_entries s. entry_key (profile_data s ! i) = x)"
    using stored_keys_iff [of s] len by simp
  show ?thesis
  proof (intro set_eqI iffI)
    fix x assume "x \<in> stored_keys (add_entry clk a c s)"
    then obtain i where i: "i < Suc (num_entries s)"
      "entry_key (profile_data (add_entry clk a c s) ! i) = x"
      using new by blast
    show "x \<in> insert (key_trunc (a, c)) (stored_keys s)"
    proof (cases "i = num_entries s")
      case True
      then show ?thesis using i(2) k by simp
    next
      case False
      then have "i < num_entries s" "entry_key (profile_data s ! i) = x"
        using i k by simp_all
      then show ?thesis using old by blast
    qed
  next
    fix x assume "x \<in> insert (key_trunc (a, c)) (stored_keys s)"
    then consider "x = key_trunc (a, c)" | "x \<in> stored_keys s" by blast
    then show "x \<in> stored_keys (add_entry clk a c s)"
    proof cases
      case 1
      then have "entry_key (profile_data (add_entry clk a c s) ! num_entries s) = x"
        using k by simp
      then show ?thesis using new by blast
    next
      case 2
      then obtain i where i: "i < num_entries s" "entry_key (profile_data s ! i) = x"
        using old by blast
      then have "entry_key (profile_data (add_entry clk a c s) ! i) = x" "i < Suc (num_entries s)"
        using k by simp_all
      then show ?thesis using new by blast
    qed
  qed
qed

lemma stored_keys_origin_step:
  assumes "table_inv s"
  shows "stored_keys (profiling_log clk a c s) \<subseteq> insert (key_trunc (a, c)) (stored_keys s)"
  using assms
proof (cases rule: profiling_log_cases [where a = a and c = c and clk = clk])
  case (Found i)
  then show ?thesis using stored_keys_bump [OF assms Found(2)] by auto
next
  case Created
  then show ?thesis using stored_keys_add [OF assms Created(3)] by auto
next
  case Dropped
  then show ?thesis by auto
qed

lemma stored_keys_origin:
  "table_inv s \<Longrightarrow> stored_keys (log_calls clk ks s) \<subseteq> stored_keys s \<union> key_trunc ` set ks"
proof (induction clk ks s rule: log_calls.induct)
  case (1 clk s)
  then show ?case by simp
next
  case (2 clk a c ks s)
  have "stored_keys (log_calls clk ks (profiling_log clk a c s))
          \<subseteq> stored_keys (profiling_log clk a c s) \<union> key_trunc ` set ks"
    by (rule 2(1) [OF table_inv_profiling_log [OF 2(2)]])
  then show ?case using stored_keys_origin_step [OF 2(2), of clk a c] by auto
qed

lemma stored_keys_init: "stored_keys init_state = {}"
  by (simp add: stored_keys_def entries_def init_state_def)

lemma profiling_log_init: "profiling_log clk a c init_state = add_entry clk a c init_state"
  using table_inv_init
proof (cases rule: profiling_log_cases [where a = a and c = c and clk = clk])
  case (Found i)
  then show ?thesis by (simp add: init_state_def)
next
  case Created
  then show ?thesis by simp
next
  case Dropped
  then show ?thesis by (simp add: init_state_def MAX_ENTRIES_def)
qed

lemma first_key_stored: "key_trunc (a, c) \<in> stored_keys (log_calls clk ((a, c) # ks) init_state)"
proof -
  have "key_trunc (a, c) \<in> stored_keys (add_entry clk a c init_state)"
    using stored_keys_add [OF table_inv_init, of clk a c] by (simp add: init_state_def MAX_ENTRIES_def)
  then have "key_trunc (a, c) \<in> stored_keys (profiling_log clk a c init_state)"
    by (simp add: profiling_log_init)
  moreover have inv1: "table_inv (profiling_log clk a c init_state)"
    by (rule table_inv_profiling_log [OF table_inv_init])
  ultimately show ?thesis
    using stored_keys_log_calls [OF inv1, where clk = clk and ks = ks]
    by auto
qed

lemma not_stored_dropped:
  assumes "table_inv s" "num_entries s = MAX_ENTRIES" "key_trunc (a, c) \<notin> stored_keys s"
  shows "profiling_log clk a c s = s"
  using assms(1)
proof (cases rule: profiling_log_cases [where a = a and c = c and clk = clk])
  case (Found i)
  have k: "entry_key (profile_data s ! i) = (c_str a, c_str c)"
    using Found(3) by (simp add: key_match_entry_key)
  then have "length (c_str a) < MAX_NAME_LEN" "length (c_str c) < MAX_NAME_LEN"
    using assms(1) Found(2) by (auto simp: table_inv_def entry_key_def)
  then have "key_trunc (a, c) = entry_key (profile_data s ! i)"
    using k by (simp add: short_key_trunc)
  then have "key_trunc (a, c) \<in> stored_keys s"
    using stored_keys_iff [OF table_inv_le_length [OF assms(1)]] Found(2) by metis
  then show ?thesis using assms(3) by simp
next
  case Created
  then show ?thesis using assms(2) by simp
next
  case Dropped
  then show ?thesis by simp
qed

lemma stored_found:
  assumes "table_inv s" "(c_str a, c_str c) \<in> stored_keys s"
  shows "\<exists>i < num_entries s. entry_key (profile_data s ! i) = (c_str a, c_str c)
           \<and> profiling_log clk a c s = bump_entry clk i s"
proof -
  obtain j where j: "j < num_entries s" "key_match (profile_data s ! j) a c"
    using assms stored_keys_iff [OF table_inv_le_length [OF assms(1)]]
    by (auto simp: key_match_entry_key)
  from assms(1) show ?thesis
  proof (cases rule: profiling_log_cases [where a = a and c = c and clk = clk])
    case (Found i)
    then show ?thesis by (auto simp: key_match_entry_key)
  next
    case Created
    then show ?thesis using j by simp
  next
    case Dropped
    then show ?thesis using j by simp
  qed
qed

text \<open>
  The capacity of the table, for names as they are stored: in every state the runtime
  reaches there are at most \<open>MAX_ENTRIES = 1024\<close>
  entries, and a call never lowers their number. Once the calls made carry more than
  1024 different keys (names cut to \<open>MAX_NAME_LEN - 1\<close> bytes, as they are stored),
  the table holds exactly 1024 entries. In a full table a call whose key is not
  stored changes nothing (\<open>profiling_log\<close> returns nothing to its caller), and a call
  whose names are those an entry stores is counted on that entry (\<open>bump_entry\<close>:
  count plus one, \<open>last_call\<close> set).
\<close>

lemma table_capacity:
  fixes clk ks a c
  defines "s \<equiv> log_calls clk ks init_state"
  shows "num_entries s \<le> MAX_ENTRIES \<and> MAX_ENTRIES = 1024
     \<and> num_entries s \<le> num_entries (profiling_log clk a c s)
     \<and> (MAX_ENTRIES < card (key_trunc ` set ks) \<longrightarrow> num_entries s = MAX_ENTRIES)
     \<and> (num_entries s = MAX_ENTRIES \<and> key_trunc (a, c) \<notin> stored_keys s
          \<longrightarrow> profiling_log clk a c s = s)
     \<and> (num_entries s = MAX_ENTRIES \<and> (c_str a, c_str c) \<in> stored_keys s
          \<longrightarrow> (\<exists>i < MAX_ENTRIES. entry_key (profile_data s ! i) = (c_str a, c_str c)
                 \<and> profiling_log clk a c s = bump_entry clk i s))"
proof -
  have inv: "table_inv s" unfolding s_def by (rule reachable_inv)
  have 1: "num_entries s \<le> MAX_ENTRIES" using inv by (simp add: table_inv_def)
  have 2: "num_entries s \<le> num_entries (profiling_log clk a c s)"
    by (rule num_entries_mono [OF inv])
  have 3: "MAX_ENTRIES < card (key_trunc ` set ks) \<longrightarrow> num_entries s = MAX_ENTRIES"
    unfolding s_def using many_keys_fill_table [OF table_inv_init, of ks clk] by simp
  have 4: "num_entries s = MAX_ENTRIES \<and> key_trunc (a, c) \<notin> stored_keys s
          \<longrightarrow> profiling_log clk a c s = s"
    using not_stored_dropped [OF inv] by blast
  have 5: "num_entries s = MAX_ENTRIES \<and> (c_str a, c_str c) \<in> stored_keys s
          \<longrightarrow> (\<exists>i < MAX_ENTRIES. entry_key (profile_data s ! i) = (c_str a, c_str c)
                 \<and> profiling_log clk a c s = bump_entry clk i s)"
    using stored_found [OF inv, of a c clk] by auto
  show ?thesis using 1 2 3 4 5 by (simp add: MAX_ENTRIES_def)
qed

lemma c_str_replicate: "ch \<noteq> NUL \<Longrightarrow> c_str (replicate n ch) = replicate n ch"
  by (induction n) (simp_all add: c_str_def)

lemma c_str_literal [simp]: "c_str [] = []" "ch \<noteq> NUL \<Longrightarrow> c_str (ch # cs) = ch # c_str cs"
  by (simp_all add: c_str_def)

lemma many_keys_trunc:
  "key_trunc (replicate (i div 32) CHR ''a'', replicate (i mod 32) CHR ''b'')
     = (replicate (i div 32) CHR ''a'', replicate (i mod 32) CHR ''b'')" if "i < 1025"
proof -
  have "i div 32 < 255" "i mod 32 < 255" using that by simp_all
  then show ?thesis
    by (simp add: key_trunc_def c_str_replicate NUL_def MAX_NAME_LEN_def)
qed

lemma many_keys_image:
  "key_trunc ` set many_keys =
     (\<lambda>i. (replicate (i div 32) CHR ''a'', replicate (i mod 32) CHR ''b'')) ` {0..<1025}"
proof -
  have "key_trunc ` set many_keys =
     (\<lambda>i. key_trunc (replicate (i div 32) CHR ''a'', replicate (i mod 32) CHR ''b'')) ` {0..<1025}"
    unfolding many_keys_def by (simp only: set_map set_upt image_image)
  also have "\<dots> = (\<lambda>i. (replicate (i div 32) CHR ''a'', replicate (i mod 32) CHR ''b'')) ` {0..<1025}"
    by (rule image_cong) (simp_all add: many_keys_trunc)
  finally show ?thesis .
qed

lemma many_keys_inj:
  "inj_on (\<lambda>i::nat. (replicate (i div 32) CHR ''a'', replicate (i mod 32) CHR ''b'')) {0..<1025}"
proof (rule inj_onI)
  fix i j :: nat
  assume "(replicate (i div 32) CHR ''a'', replicate (i mod 32) CHR ''b'')
        = (replicate (j div 32) CHR ''a'', replicate (j mod 32) CHR ''b'')"
  then have "length (replicate (i div 32) CHR ''a'') = length (replicate (j div 32) CHR ''a'')"
    "length (replicate (i mod 32) CHR ''b'') = length (replicate (j mod 32) CHR ''b'')"
    by simp_all
  then have "i div 32 = j div 32" "i mod 32 = j mod 32" by simp_all
  then show "i = j" by (metis div_mult_mod_eq)
qed

lemma many_keys_card: "card (key_trunc ` set many_keys) = 1025"
  unfolding many_keys_image by (simp add: card_image [OF many_keys_inj])

lemma many_keys_first: "\<exists>ks. many_keys = ([], []) # ks"
proof -
  have "[0..<1025] = 0 # [Suc 0..<1025]" by (rule upt_conv_Cons) simp
  then have "many_keys = ([], [])
      # map (\<lambda>i. (replicate (i div 32) CHR ''a'', replicate (i mod 32) CHR ''b'')) [Suc 0..<1025]"
    unfolding many_keys_def by (simp only: list.map) simp
  then show ?thesis by blast
qed

lemma strcpy_main_fresh: "key_trunc (''strcpy'', ''main'') \<notin> key_trunc ` set many_keys"
proof
  assume "key_trunc (''strcpy'', ''main'') \<in> key_trunc ` set many_keys"
  then obtain i where "key_trunc (''strcpy'', ''main'') = (replicate (i div 32) CHR ''a'', replicate (i mod 32) CHR ''b'')"
    unfolding many_keys_image by blast
  then have "''strcpy'' = replicate (i div 32) CHR ''a''"
    by (simp add: key_trunc_def NUL_def MAX_NAME_LEN_def)
  then have "CHR ''s'' \<in> set (replicate (i div 32) CHR ''a'')"
    by (metis list.set_intros(1))
  then show False by simp
qed

text \<open>
  At a concrete run: after the 1025 calls of \<open>many_keys\<close> the table is full, a call
  with a new pair of names changes nothing, and a call with the names of the first
  entry is counted on an entry.
\<close>

lemma table_capacity_many_keys:
  "num_entries (log_calls tick_clock many_keys init_state) = 1024
   \<and> profiling_log tick_clock ''strcpy'' ''main'' (log_calls tick_clock many_keys init_state)
       = log_calls tick_clock many_keys init_state
   \<and> (\<exists>i < 1024. profiling_log tick_clock [] [] (log_calls tick_clock many_keys init_state)
                   = bump_entry tick_clock i (log_calls tick_clock many_keys init_state))"
proof -
  let ?S = "log_calls tick_clock many_keys init_state"
  have c: "MAX_ENTRIES < card (key_trunc ` set many_keys)"
    by (simp add: many_keys_card MAX_ENTRIES_def)
  have full: "num_entries ?S = MAX_ENTRIES"
    using table_capacity [of tick_clock many_keys "''strcpy''" "''main''"] c by blast
  have "stored_keys ?S \<subseteq> key_trunc ` set many_keys"
    using stored_keys_origin [OF table_inv_init, of tick_clock many_keys]
    by (simp add: stored_keys_init)
  then have fresh: "key_trunc (''strcpy'', ''main'') \<notin> stored_keys ?S"
    using strcpy_main_fresh by blast
  have drop: "profiling_log tick_clock ''strcpy'' ''main'' ?S = ?S"
    using table_capacity [of tick_clock many_keys "''strcpy''" "''main''"] full fresh by blast
  obtain ks where ks: "many_keys = ([], []) # ks" using many_keys_first by blast
  have "key_trunc ([], []) \<in> stored_keys ?S"
    unfolding ks by (rule first_key_stored)
  then have "(c_str [], c_str []) \<in> stored_keys ?S"
    by (simp add: key_trunc_def)
  then have "\<exists>i < MAX_ENTRIES. entry_key (profile_data ?S ! i) = (c_str [], c_str [])
                 \<and> profiling_log tick_clock [] [] ?S = bump_entry tick_clock i ?S"
    using table_capacity [of tick_clock many_keys "[]" "[]"] full by blast
  then show ?thesis using full drop by (auto simp: MAX_ENTRIES_def)
qed

section \<open>Runs with one or two pairs of names\<close>

lemma profiling_log_first_match:
  assumes "first_match s a c i"
  shows "profiling_log clk a c s = bump_entry clk i s"
proof -
  have "search_entries (profile_data s) (num_entries s) a c 0 = Some i"
    using assms by (simp add: search_entries_Some first_match_def)
  then show ?thesis unfolding bump_entry_def by (rule profiling_log_found)
qed

lemma profiling_log_no_match:
  assumes "table_inv s" "\<forall>j < num_entries s. \<not> key_match (profile_data s ! j) a c"
    "num_entries s < MAX_ENTRIES"
  shows "profiling_log clk a c s = add_entry clk a c s"
  using assms(1)
proof (cases rule: profiling_log_cases [where a = a and c = c and clk = clk])
  case (Found i)
  then show ?thesis using assms(2) by simp
next
  case Created
  then show ?thesis by simp
next
  case Dropped
  then show ?thesis using assms(3) by simp
qed

lemma first_match_bump:
  assumes "first_match s a c i" "i < length (profile_data s)"
  shows "first_match (bump_entry clk i s) a c i"
  using assms by (simp add: first_match_def bump_entry_nth key_match_def)

lemma log_calls_append:
  "log_calls clk (xs @ ys) s = log_calls clk ys (log_calls clk xs s)"
  by (induction clk xs s rule: log_calls.induct) simp_all

text \<open>
  \<open>m\<close> further calls with the names of entry \<open>i\<close>: only that entry changes, and its
  count has gone up by \<open>m\<close> (modulo \<open>2 ^ 64\<close>).
\<close>

lemma repeat_existing_key:
  assumes "table_inv s" "first_match s a c i"
  shows "num_entries (log_calls clk (replicate m (a, c)) s) = num_entries s
     \<and> table_inv (log_calls clk (replicate m (a, c)) s)
     \<and> first_match (log_calls clk (replicate m (a, c)) s) a c i
     \<and> count (profile_data (log_calls clk (replicate m (a, c)) s) ! i)
         = count (profile_data s ! i) + of_nat m
     \<and> (\<forall>j. j \<noteq> i \<longrightarrow> profile_data (log_calls clk (replicate m (a, c)) s) ! j = profile_data s ! j)"
  using assms
proof (induction m arbitrary: s)
  case 0
  then show ?case by simp
next
  case (Suc m)
  let ?s1 = "bump_entry clk i s"
  have i: "i < num_entries s" using Suc.prems(2) by (simp add: first_match_def)
  have len: "i < length (profile_data s)" using i Suc.prems(1) by (simp add: table_inv_def)
  have step: "profiling_log clk a c s = ?s1"
    by (rule profiling_log_first_match [OF Suc.prems(2)])
  have inv1: "table_inv ?s1" by (rule table_inv_bump [OF Suc.prems(1) i])
  have fm1: "first_match ?s1 a c i" by (rule first_match_bump [OF Suc.prems(2) len])
  have c1: "count (profile_data ?s1 ! i) = count (profile_data s ! i) + 1"
    using len by (simp add: bump_entry_nth)
  have o1: "\<And>j. j \<noteq> i \<Longrightarrow> profile_data ?s1 ! j = profile_data s ! j"
    using len by (simp add: bump_entry_nth)
  show ?case using Suc.IH [OF inv1 fm1] c1 o1 by (simp add: step add.assoc)
qed

lemma num_entries_init: "num_entries init_state = 0"
  by (simp add: init_state_def)

text \<open>The first call on the initial state creates entry 0.\<close>

lemma first_call:
  shows "profiling_log clk a c init_state = add_entry clk a c init_state"
    and "num_entries (add_entry clk a c init_state) = 1"
    and "table_inv (add_entry clk a c init_state)"
    and "profile_data (add_entry clk a c init_state) ! 0 = new_entry clk a c init_state"
proof -
  show "profiling_log clk a c init_state = add_entry clk a c init_state"
    by (rule profiling_log_init)
  show "num_entries (add_entry clk a c init_state) = 1"
    by (simp add: init_state_def)
  show "table_inv (add_entry clk a c init_state)"
    by (rule table_inv_add [OF table_inv_init]) (simp add: init_state_def MAX_ENTRIES_def)
  show "profile_data (add_entry clk a c init_state) ! 0 = new_entry clk a c init_state"
    by (simp add: add_entry_def init_state_def MAX_ENTRIES_def)
qed

lemma key_match_new_entry:
  "key_match (new_entry clk a c s) a' c' \<longleftrightarrow> key_trunc (a, c) = (c_str a', c_str c')"
  using entry_key_new_entry [of clk a c s] by (simp add: key_match_entry_key)

text \<open>
  \<open>N\<close> calls with one pair of names, neither longer than \<open>MAX_NAME_LEN - 1\<close> bytes,
  make one entry, and its count is \<open>N\<close> (modulo \<open>2 ^ 64\<close>).
\<close>

lemma same_short_key:
  assumes "length (c_str a) < MAX_NAME_LEN" "length (c_str c) < MAX_NAME_LEN" "0 < N"
  shows "num_entries (log_calls clk (replicate N (a, c)) init_state) = 1
     \<and> entry_key (profile_data (log_calls clk (replicate N (a, c)) init_state) ! 0) = (c_str a, c_str c)
     \<and> count (profile_data (log_calls clk (replicate N (a, c)) init_state) ! 0) = of_nat N
     \<and> table_inv (log_calls clk (replicate N (a, c)) init_state)
     \<and> first_match (log_calls clk (replicate N (a, c)) init_state) a c 0"
proof -
  obtain m where N: "N = Suc m" using assms(3) by (cases N) simp_all
  let ?s1 = "add_entry clk a c init_state"
  have fm: "first_match ?s1 a c 0"
    using assms(1,2) by (simp add: first_match_def first_call key_match_new_entry short_key_trunc)
  have run: "log_calls clk (replicate N (a, c)) init_state = log_calls clk (replicate m (a, c)) ?s1"
    by (simp add: N first_call(1))
  have k: "entry_key (profile_data (log_calls clk (replicate m (a, c)) ?s1) ! 0) = (c_str a, c_str c)"
    using repeat_existing_key [OF first_call(3) fm, of clk m]
    by (simp add: first_match_def key_match_entry_key)
  show ?thesis
    unfolding run using repeat_existing_key [OF first_call(3) fm, of clk m] k
    by (simp add: first_call N num_entries_init)
qed

lemma long_name_no_match:
  assumes "table_inv s" "MAX_NAME_LEN \<le> length (c_str a) \<or> MAX_NAME_LEN \<le> length (c_str c)"
  shows "\<forall>j < num_entries s. \<not> key_match (profile_data s ! j) a c"
  using assms by (auto simp: table_inv_def key_match_def)

lemma find_or_create_entry_fst:
  "fst (find_or_create_entry clk a c s) =
     (case search_entries (profile_data s) (num_entries s) a c 0 of
        Some i \<Rightarrow> Some i
      | None \<Rightarrow> if num_entries s < MAX_ENTRIES then Some (num_entries s) else None)"
  by (simp add: find_or_create_entry_def clock_gettime_def Let_def split: option.split)

lemma recorded_first_match:
  assumes "first_match s a c i"
  shows "fst (find_or_create_entry clk a c s) = Some i"
proof -
  have "search_entries (profile_data s) (num_entries s) a c 0 = Some i"
    using assms by (simp add: search_entries_Some first_match_def)
  then show ?thesis by (simp add: find_or_create_entry_fst)
qed

lemma recorded_cases:
  assumes "table_inv s"
  shows "(\<exists>i. first_match s a c i \<and> fst (find_or_create_entry clk a c s) = Some i
             \<and> profiling_log clk a c s = bump_entry clk i s)
       \<or> (fst (find_or_create_entry clk a c s) = Some (num_entries s) \<and> num_entries s < MAX_ENTRIES
             \<and> profiling_log clk a c s = add_entry clk a c s)
       \<or> (fst (find_or_create_entry clk a c s) = None \<and> profiling_log clk a c s = s)"
  using assms
proof (cases rule: profiling_log_cases [where a = a and c = c and clk = clk])
  case (Found i)
  then have "first_match s a c i" by (simp add: first_match_def)
  then show ?thesis using Found(5) recorded_first_match by blast
next
  case Created
  then show ?thesis by (simp add: find_or_create_entry_fst)
next
  case Dropped
  then show ?thesis by (simp add: find_or_create_entry_fst)
qed

text \<open>
  \<open>N\<close> calls with one pair of short names followed by \<open>M\<close> calls with another:
  two entries, counting \<open>N\<close> and \<open>M\<close> (modulo \<open>2 ^ 64\<close>).
\<close>

lemma two_short_keys:
  fixes clk a c a' c' N M
  assumes "length (c_str a) < MAX_NAME_LEN" "length (c_str c) < MAX_NAME_LEN"
    and "length (c_str a') < MAX_NAME_LEN" "length (c_str c') < MAX_NAME_LEN"
    and "(c_str a, c_str c) \<noteq> (c_str a', c_str c')" "0 < N" "0 < M"
  defines "s \<equiv> log_calls clk (replicate N (a, c) @ replicate M (a', c')) init_state"
  shows "num_entries s = 2 \<and> table_inv s
     \<and> first_match s a c 0 \<and> first_match s a' c' 1
     \<and> count (profile_data s ! 0) = of_nat N \<and> count (profile_data s ! 1) = of_nat M"
proof -
  let ?sA = "log_calls clk (replicate N (a, c)) init_state"
  let ?sB = "add_entry clk a' c' ?sA"
  obtain m where M: "M = Suc m" using assms(7) by (cases M) simp_all
  have A: "num_entries ?sA = 1" "entry_key (profile_data ?sA ! 0) = (c_str a, c_str c)"
    "count (profile_data ?sA ! 0) = of_nat N" "table_inv ?sA" "first_match ?sA a c 0"
    using same_short_key [OF assms(1,2,6), of clk] by simp_all
  have lenA: "num_entries ?sA < length (profile_data ?sA)"
    using A(1,4) by (simp add: table_inv_def MAX_ENTRIES_def)
  have nm: "\<forall>j < num_entries ?sA. \<not> key_match (profile_data ?sA ! j) a' c'"
    using A(1,2) assms(5) by (simp add: key_match_entry_key)
  have step: "profiling_log clk a' c' ?sA = ?sB"
    using A(1) by (intro profiling_log_no_match [OF A(4) nm]) (simp add: MAX_ENTRIES_def)
  have invB: "table_inv ?sB"
    using A(1) by (intro table_inv_add [OF A(4)]) (simp add: MAX_ENTRIES_def)
  have B0: "profile_data ?sB ! 0 = profile_data ?sA ! 0"
    and B1: "profile_data ?sB ! 1 = new_entry clk a' c' ?sA"
    using lenA A(1) by (simp_all add: add_entry_nth)
  have kB: "entry_key (new_entry clk a' c' ?sA) = (c_str a', c_str c')"
    using assms(3,4) by (simp add: entry_key_new_entry short_key_trunc)
  have fmB: "first_match ?sB a' c' 1"
    using A(1,2) assms(5) B0 B1 kB
    by (simp add: first_match_def key_match_entry_key)
  have run: "s = log_calls clk (replicate m (a', c')) ?sB"
    by (simp add: s_def log_calls_append M step)
  note R = repeat_existing_key [OF invB fmB, of clk m]
  have c0: "profile_data s ! 0 = profile_data ?sA ! 0"
    using R B0 by (simp add: run)
  have "first_match s a c 0"
    using A(2) R c0 by (simp add: first_match_def key_match_entry_key run A(1))
  then show ?thesis
    using R c0 A(1,3) B1 by (simp add: run M)
qed

section \<open>The claims about profiling\_log\<close>

lemma tick_clock_monotonic: "monotonic tick_clock"
  by (auto simp: monotonic_def tick_clock_def ts_le_def)

lemma c_str_strcpy: "c_str ''strcpy'' = ''strcpy''" "c_str ''main'' = ''main''"
  "c_str ''helper'' = ''helper''"
  by (simp_all add: NUL_def)

lemma short_literals:
  "length (c_str ''strcpy'') < MAX_NAME_LEN" "length (c_str ''main'') < MAX_NAME_LEN"
  "length (c_str ''helper'') < MAX_NAME_LEN"
  by (simp_all add: c_str_strcpy MAX_NAME_LEN_def)

lemma take_2_nth:
  assumes "2 \<le> length xs"
  shows "take 2 xs = [xs ! 0, xs ! 1]"
proof -
  obtain x y zs where "xs = x # y # zs"
    using assms by (cases xs; cases "tl xs") auto
  then show ?thesis by (simp add: numeral_2_eq_2)
qed

text \<open>
  C1, at a name of 256 bytes: the entry stores the first 255 bytes, the search loop
  compares the stored name with all 256 bytes of the argument, so the second call
  does not find the entry the first call made and makes another one. Two calls with
  the same pair of names leave two entries with the same stored key, each counting 1.
\<close>

theorem C1_long_name_two_entries:
  "num_entries (log_calls tick_clock
       [(replicate 256 CHR ''A'', ''main''), (replicate 256 CHR ''A'', ''main'')] init_state) = 2
   \<and> map count (entries (log_calls tick_clock
       [(replicate 256 CHR ''A'', ''main''), (replicate 256 CHR ''A'', ''main'')] init_state)) = [1, 1]
   \<and> map entry_key (entries (log_calls tick_clock
       [(replicate 256 CHR ''A'', ''main''), (replicate 256 CHR ''A'', ''main'')] init_state))
       = [(replicate 255 CHR ''A'', ''main''), (replicate 255 CHR ''A'', ''main'')]"
proof -
  let ?a = "replicate 256 CHR ''A''"
  let ?s1 = "add_entry tick_clock ?a ''main'' init_state"
  let ?s2 = "add_entry tick_clock ?a ''main'' ?s1"
  have ca: "c_str ?a = ?a" by (rule c_str_replicate) (simp add: NUL_def)
  have long: "MAX_NAME_LEN \<le> length (c_str ?a) \<or> MAX_NAME_LEN \<le> length (c_str ''main'')"
    unfolding ca by (simp add: MAX_NAME_LEN_def)
  have key: "key_trunc (?a, ''main'') = (replicate 255 CHR ''A'', ''main'')"
    unfolding key_trunc_def fst_conv snd_conv ca c_str_strcpy by (simp add: MAX_NAME_LEN_def)
  have n1: "num_entries ?s1 < MAX_ENTRIES" by (simp add: num_entries_init MAX_ENTRIES_def)
  have step2: "profiling_log tick_clock ?a ''main'' ?s1 = ?s2"
    by (rule profiling_log_no_match [OF first_call(3) long_name_no_match [OF first_call(3) long] n1])
  have run: "log_calls tick_clock [(?a, ''main''), (?a, ''main'')] init_state = ?s2"
    by (simp add: first_call(1) step2)
  have len1: "num_entries ?s1 < length (profile_data ?s1)"
    using first_call(3) [of tick_clock ?a "''main''"] n1 by (simp add: table_inv_def)
  have len2: "length (profile_data ?s2) = MAX_ENTRIES"
    using first_call(3) [of tick_clock ?a "''main''"] by (simp add: table_inv_def)
  have e0: "profile_data ?s2 ! 0 = new_entry tick_clock ?a ''main'' init_state"
    using len1 by (simp add: add_entry_nth [of ?s1] num_entries_init first_call(4))
  have e1: "profile_data ?s2 ! 1 = new_entry tick_clock ?a ''main'' ?s1"
    using len1 by (simp add: add_entry_nth [of ?s1] num_entries_init)
  have n2: "num_entries ?s2 = 2" by (simp add: num_entries_init)
  have "entries ?s2 = [profile_data ?s2 ! 0, profile_data ?s2 ! 1]"
    unfolding entries_def n2 using len2
    by (intro take_2_nth) (simp add: MAX_ENTRIES_def)
  then show ?thesis
    unfolding run using e0 e1 by (simp add: num_entries_init entry_key_new_entry key)
qed

lemma reachable_ts_inv: "ts_inv clk (log_calls clk ks init_state)"
  by (rule ts_inv_log_calls [OF table_inv_init ts_inv_init])

lemma count_step:
  assumes inv: "table_inv s" and i: "i < num_entries s"
  shows "(fst (find_or_create_entry clk a c s) = Some i
            \<and> unat (count (profile_data s ! i)) < 2 ^ 64 - 1
          \<longrightarrow> unat (count (profile_data (profiling_log clk a c s) ! i))
                = unat (count (profile_data s ! i)) + 1)
       \<and> (fst (find_or_create_entry clk a c s) \<noteq> Some i
          \<longrightarrow> count (profile_data (profiling_log clk a c s) ! i) = count (profile_data s ! i))"
proof -
  have le: "num_entries s \<le> length (profile_data s)" using inv by (simp add: table_inv_def)
  from recorded_cases [OF inv, of a c clk] show ?thesis
  proof (elim disjE exE conjE)
    fix k assume k: "first_match s a c k" "fst (find_or_create_entry clk a c s) = Some k"
      "profiling_log clk a c s = bump_entry clk k s"
    have "k < length (profile_data s)" using k(1) le by (simp add: first_match_def)
    then show ?thesis using k(2,3) by (auto simp: bump_entry_nth unat_succ)
  next
    assume k: "fst (find_or_create_entry clk a c s) = Some (num_entries s)"
      "num_entries s < MAX_ENTRIES" "profiling_log clk a c s = add_entry clk a c s"
    have "num_entries s < length (profile_data s)" using k(2) inv by (simp add: table_inv_def)
    then show ?thesis using k(1,3) i by (auto simp: add_entry_nth)
  next
    assume "fst (find_or_create_entry clk a c s) = None" "profiling_log clk a c s = s"
    then show ?thesis by simp
  qed
qed

lemma created_count:
  assumes inv: "table_inv s" and r: "fst (find_or_create_entry clk a c s) = Some (num_entries s)"
  shows "count (profile_data (profiling_log clk a c s) ! num_entries s) = 1"
    and "first_call (profile_data (profiling_log clk a c s) ! num_entries s) = clk (clock_reads s)"
    and "last_call (profile_data (profiling_log clk a c s) ! num_entries s) = clk (Suc (clock_reads s))"
    and "num_entries (profiling_log clk a c s) = Suc (num_entries s)"
proof -
  have "profiling_log clk a c s = add_entry clk a c s \<and> num_entries s < length (profile_data s)"
    using recorded_cases [OF inv, of a c clk] r inv
    by (auto simp: first_match_def table_inv_def)
  then show "count (profile_data (profiling_log clk a c s) ! num_entries s) = 1"
    and "first_call (profile_data (profiling_log clk a c s) ! num_entries s) = clk (clock_reads s)"
    and "last_call (profile_data (profiling_log clk a c s) ! num_entries s) = clk (Suc (clock_reads s))"
    and "num_entries (profiling_log clk a c s) = Suc (num_entries s)"
    by (simp_all add: add_entry_nth)
qed

text \<open>
  C5, as amended: in every state the runtime reaches, one more call of \<open>profiling_log\<close>
  raises the count of the entry it is recorded on by exactly one as long as that count
  is below \<open>2 ^ 64 - 1\<close>, leaves the count of every other entry as it is, and gives a
  new entry the count 1; after the call, with a monotonic clock, \<open>first_call\<close> is not
  later than \<open>last_call\<close> in every entry. At \<open>2 ^ 64 - 1\<close> the
  \<^verbatim>\<open>unsigned long\<close> count wraps to 0.
\<close>

theorem C5_count_and_timestamps:
  fixes clk ks a c
  defines "s \<equiv> log_calls clk ks init_state"
  defines "s' \<equiv> profiling_log clk a c (log_calls clk ks init_state)"
  assumes "monotonic clk"
  shows "(\<forall>i < num_entries s.
            (fst (find_or_create_entry clk a c s) = Some i
               \<and> unat (count (profile_data s ! i)) < 2 ^ 64 - 1
             \<longrightarrow> unat (count (profile_data s' ! i)) = unat (count (profile_data s ! i)) + 1)
          \<and> (fst (find_or_create_entry clk a c s) \<noteq> Some i
             \<longrightarrow> count (profile_data s' ! i) = count (profile_data s ! i)))
       \<and> (fst (find_or_create_entry clk a c s) = Some (num_entries s)
             \<longrightarrow> count (profile_data s' ! num_entries s) = 1)
       \<and> (\<forall>i < num_entries s'.
             ts_le (first_call (profile_data s' ! i)) (last_call (profile_data s' ! i)))"
proof -
  have inv: "table_inv s" unfolding s_def by (rule reachable_inv)
  have s': "s' = log_calls clk (ks @ [(a, c)]) init_state"
    by (simp add: s'_def log_calls_append)
  have ts: "ts_inv clk s'" unfolding s' by (rule reachable_ts_inv)
  have 1: "\<forall>i < num_entries s.
            (fst (find_or_create_entry clk a c s) = Some i
               \<and> unat (count (profile_data s ! i)) < 2 ^ 64 - 1
             \<longrightarrow> unat (count (profile_data s' ! i)) = unat (count (profile_data s ! i)) + 1)
          \<and> (fst (find_or_create_entry clk a c s) \<noteq> Some i
             \<longrightarrow> count (profile_data s' ! i) = count (profile_data s ! i))"
    using count_step [OF inv, of _ clk a c] unfolding s'_def s_def by blast
  have 2: "fst (find_or_create_entry clk a c s) = Some (num_entries s)
             \<longrightarrow> count (profile_data s' ! num_entries s) = 1"
    using created_count(1) [OF inv, of clk a c] unfolding s'_def s_def by blast
  have 3: "\<forall>i < num_entries s'.
             ts_le (first_call (profile_data s' ! i)) (last_call (profile_data s' ! i))"
    using ts_inv_ordered(1) [OF ts assms(3)] by blast
  show ?thesis using 1 2 3 by blast
qed

lemma strcpy_keys_differ:
  "(c_str ''strcpy'', c_str ''main'') \<noteq> (c_str ''strcpy'', c_str ''helper'')"
  by (simp add: c_str_strcpy)

lemma main_helper_run:
  "num_entries (log_calls clk [(''strcpy'', ''main''), (''strcpy'', ''helper'')] init_state) = 2"
  "table_inv (log_calls clk [(''strcpy'', ''main''), (''strcpy'', ''helper'')] init_state)"
  "first_match (log_calls clk [(''strcpy'', ''main''), (''strcpy'', ''helper'')] init_state)
     ''strcpy'' ''main'' 0"
  "first_match (log_calls clk [(''strcpy'', ''main''), (''strcpy'', ''helper'')] init_state)
     ''strcpy'' ''helper'' 1"
  "count (profile_data (log_calls clk [(''strcpy'', ''main''), (''strcpy'', ''helper'')] init_state) ! 0) = 1"
  "count (profile_data (log_calls clk [(''strcpy'', ''main''), (''strcpy'', ''helper'')] init_state) ! 1) = 1"
  using two_short_keys [OF short_literals(1,2) short_literals(1,3) strcpy_keys_differ,
      of 1 1 clk]
  by simp_all

lemma init_creates: "fst (find_or_create_entry clk a c init_state) = Some (num_entries init_state)"
  by (simp add: find_or_create_entry_fst search_entries_step [of _ 0] num_entries_init MAX_ENTRIES_def)

text \<open>
  C5 at concrete runs: after one call from \<^verbatim>\<open>main\<close> and one from \<^verbatim>\<open>helper\<close>, a
  further call from \<^verbatim>\<open>helper\<close> raises the count of entry 1 by one and leaves entry 0
  alone; the first call of all creates entry 0 with count 1 and ordered timestamps.
\<close>

theorem C5_count_and_timestamps_witness:
  "unat (count (profile_data (profiling_log tick_clock ''strcpy'' ''helper''
           (log_calls tick_clock [(''strcpy'', ''main''), (''strcpy'', ''helper'')] init_state)) ! 1))
     = unat (count (profile_data
           (log_calls tick_clock [(''strcpy'', ''main''), (''strcpy'', ''helper'')] init_state) ! 1)) + 1
   \<and> count (profile_data (profiling_log tick_clock ''strcpy'' ''helper''
           (log_calls tick_clock [(''strcpy'', ''main''), (''strcpy'', ''helper'')] init_state)) ! 0)
     = count (profile_data
           (log_calls tick_clock [(''strcpy'', ''main''), (''strcpy'', ''helper'')] init_state) ! 0)
   \<and> count (profile_data (profiling_log tick_clock ''strcpy'' ''main'' init_state) ! 0) = 1
   \<and> ts_le (first_call (profile_data (profiling_log tick_clock ''strcpy'' ''main'' init_state) ! 0))
           (last_call (profile_data (profiling_log tick_clock ''strcpy'' ''main'' init_state) ! 0))"
proof -
  let ?ks = "[(''strcpy'', ''main''), (''strcpy'', ''helper'')]"
  let ?S = "log_calls tick_clock ?ks init_state"
  note T = C5_count_and_timestamps [OF tick_clock_monotonic, of ?ks "''strcpy''" "''helper''"]
  note T0 = C5_count_and_timestamps [OF tick_clock_monotonic, of "[]" "''strcpy''" "''main''"]
  have r1: "fst (find_or_create_entry tick_clock ''strcpy'' ''helper'' ?S) = Some 1"
    by (rule recorded_first_match [OF main_helper_run(4)])
  have small: "unat (count (profile_data ?S ! 1)) < 2 ^ 64 - 1"
    unfolding main_helper_run(6) by simp
  have n: "0 < num_entries ?S" "1 < num_entries ?S"
    unfolding main_helper_run(1) by simp_all
  have a: "unat (count (profile_data (profiling_log tick_clock ''strcpy'' ''helper'' ?S) ! 1))
     = unat (count (profile_data ?S ! 1)) + 1"
    using T r1 small n(2) by blast
  have b: "count (profile_data (profiling_log tick_clock ''strcpy'' ''helper'' ?S) ! 0)
     = count (profile_data ?S ! 0)"
    using T r1 n(1) by (simp del: log_calls.simps One_nat_def)
  have n0: "num_entries (profiling_log tick_clock ''strcpy'' ''main'' init_state) = 1"
    by (simp add: first_call(1) num_entries_init)
  have c: "count (profile_data (profiling_log tick_clock ''strcpy'' ''main'' init_state) ! 0) = 1"
    using T0 init_creates [of tick_clock "''strcpy''" "''main''"] by (simp add: num_entries_init)
  have d: "ts_le (first_call (profile_data (profiling_log tick_clock ''strcpy'' ''main'' init_state) ! 0))
           (last_call (profile_data (profiling_log tick_clock ''strcpy'' ''main'' init_state) ! 0))"
    using T0 n0 by simp
  show ?thesis using a b c d by blast
qed

text \<open>
  C5 as stated fails: after \<open>2 ^ 64 - 1\<close> calls with one pair of names the count
  of its entry is \<open>2 ^ 64 - 1\<close>, and the next call, recorded on that entry, leaves
  it at 0.
\<close>

theorem C5_count_wraps:
  "fst (find_or_create_entry tick_clock ''strcpy'' ''main''
      (log_calls tick_clock (replicate 18446744073709551615 (''strcpy'', ''main'')) init_state)) = Some 0
   \<and> count (profile_data
      (log_calls tick_clock (replicate 18446744073709551615 (''strcpy'', ''main'')) init_state) ! 0)
      = 18446744073709551615
   \<and> count (profile_data (profiling_log tick_clock ''strcpy'' ''main''
      (log_calls tick_clock (replicate 18446744073709551615 (''strcpy'', ''main'')) init_state)) ! 0)
      = 0"
proof -
  let ?S = "log_calls tick_clock (replicate 18446744073709551615 (''strcpy'', ''main'')) init_state"
  have S: "count (profile_data ?S ! 0) = of_nat 18446744073709551615" "table_inv ?S"
    "first_match ?S ''strcpy'' ''main'' 0"
    using same_short_key [OF short_literals(1,2), of 18446744073709551615 tick_clock] by simp_all
  have len: "0 < length (profile_data ?S)"
    using S(2) by (simp add: table_inv_def MAX_ENTRIES_def)
  have r: "fst (find_or_create_entry tick_clock ''strcpy'' ''main'' ?S) = Some 0"
    by (rule recorded_first_match [OF S(3)])
  have "profiling_log tick_clock ''strcpy'' ''main'' ?S = bump_entry tick_clock 0 ?S"
    by (rule profiling_log_first_match [OF S(3)])
  then have "count (profile_data (profiling_log tick_clock ''strcpy'' ''main'' ?S) ! 0)
      = count (profile_data ?S ! 0) + 1"
    using len by (simp add: bump_entry_nth)
  then show ?thesis using r S(1) by simp
qed

text \<open>
  C9, as amended: in every state the runtime reaches, both timestamps of every entry
  are readings of the clock, \<open>first_call\<close> an earlier reading than \<open>last_call\<close>; the
  count of every entry is at least 1 as long as fewer than \<open>2 ^ 64\<close> calls have been
  made; with a monotonic clock the duration the exit handler computes for an entry is
  not negative. The call that creates an entry leaves it with count 1, \<open>first_call\<close>
  the reading taken in \<^verbatim>\<open>find_or_create_entry\<close> and \<open>last_call\<close> the next reading.
  After \<open>2 ^ 64\<close> calls with one pair of names the count is 0 again.
\<close>

theorem C9_entries_complete:
  fixes clk ks
  defines "s \<equiv> log_calls clk ks init_state"
  shows "(\<forall>i < num_entries s.
            (\<exists>j k. j < k \<and> k < clock_reads s
               \<and> first_call (profile_data s ! i) = clk j \<and> last_call (profile_data s ! i) = clk k)
          \<and> (length ks < 2 ^ 64 \<longrightarrow> 1 \<le> unat (count (profile_data s ! i)))
          \<and> (monotonic clk \<longrightarrow>
                0 \<le> time_diff_ms (first_call (profile_data s ! i)) (last_call (profile_data s ! i))))
       \<and> (\<forall>a c. fst (find_or_create_entry clk a c s) = Some (num_entries s) \<longrightarrow>
             count (profile_data (profiling_log clk a c s) ! num_entries s) = 1
           \<and> first_call (profile_data (profiling_log clk a c s) ! num_entries s) = clk (clock_reads s)
           \<and> last_call (profile_data (profiling_log clk a c s) ! num_entries s)
               = clk (Suc (clock_reads s)))"
proof -
  have inv: "table_inv s" unfolding s_def by (rule reachable_inv)
  have ts: "ts_inv clk s" unfolding s_def by (rule reachable_ts_inv)
  have 1: "\<forall>i < num_entries s. \<exists>j k. j < k \<and> k < clock_reads s
               \<and> first_call (profile_data s ! i) = clk j \<and> last_call (profile_data s ! i) = clk k"
    using ts by (simp add: ts_inv_def)
  have 2: "\<forall>i < num_entries s. length ks < 2 ^ 64 \<longrightarrow> 1 \<le> unat (count (profile_data s ! i))"
    using counts_inv_reachable [of ks clk] unfolding s_def by (simp add: counts_inv_def)
  have 3: "\<forall>i < num_entries s. monotonic clk \<longrightarrow>
                0 \<le> time_diff_ms (first_call (profile_data s ! i)) (last_call (profile_data s ! i))"
    using ts_inv_ordered(2) [OF ts] by blast
  have 4: "\<forall>a c. fst (find_or_create_entry clk a c s) = Some (num_entries s) \<longrightarrow>
             count (profile_data (profiling_log clk a c s) ! num_entries s) = 1
           \<and> first_call (profile_data (profiling_log clk a c s) ! num_entries s) = clk (clock_reads s)
           \<and> last_call (profile_data (profiling_log clk a c s) ! num_entries s)
               = clk (Suc (clock_reads s))"
    using created_count(1,2,3) [OF inv] by blast
  show ?thesis using 1 2 3 4 by blast
qed

text \<open>
  C9 at a concrete run: after one call the entry has both timestamps, count 1 and a
  duration that is not negative; the call that created it set \<open>last_call\<close> to the
  second reading of the clock.
\<close>

theorem C9_entries_complete_witness:
  "(\<exists>j k. j < k \<and> k < clock_reads (log_calls tick_clock [(''strcpy'', ''main'')] init_state)
      \<and> first_call (profile_data (log_calls tick_clock [(''strcpy'', ''main'')] init_state) ! 0)
          = tick_clock j
      \<and> last_call (profile_data (log_calls tick_clock [(''strcpy'', ''main'')] init_state) ! 0)
          = tick_clock k)
   \<and> 1 \<le> unat (count (profile_data (log_calls tick_clock [(''strcpy'', ''main'')] init_state) ! 0))
   \<and> 0 \<le> time_diff_ms
        (first_call (profile_data (log_calls tick_clock [(''strcpy'', ''main'')] init_state) ! 0))
        (last_call (profile_data (log_calls tick_clock [(''strcpy'', ''main'')] init_state) ! 0))
   \<and> count (profile_data (profiling_log tick_clock ''strcpy'' ''main'' init_state) ! 0) = 1
   \<and> last_call (profile_data (profiling_log tick_clock ''strcpy'' ''main'' init_state) ! 0)
       = tick_clock 1"
proof -
  let ?S = "log_calls tick_clock [(''strcpy'', ''main'')] init_state"
  note T = C9_entries_complete [of tick_clock "[(''strcpy'', ''main'')]"]
  note T0 = C9_entries_complete [of tick_clock "[]"]
  have n: "0 < num_entries ?S" by (simp add: first_call(1) num_entries_init)
  have len: "length [(''strcpy'', ''main'')] < (2::nat) ^ 64" by simp
  have a: "\<exists>j k. j < k \<and> k < clock_reads ?S
      \<and> first_call (profile_data ?S ! 0) = tick_clock j \<and> last_call (profile_data ?S ! 0) = tick_clock k"
    using T n by blast
  have b: "1 \<le> unat (count (profile_data ?S ! 0))"
    using T n len by blast
  have c: "0 \<le> time_diff_ms (first_call (profile_data ?S ! 0)) (last_call (profile_data ?S ! 0))"
    using T n tick_clock_monotonic by blast
  have d: "count (profile_data (profiling_log tick_clock ''strcpy'' ''main'' init_state) ! 0) = 1
   \<and> last_call (profile_data (profiling_log tick_clock ''strcpy'' ''main'' init_state) ! 0)
       = tick_clock 1"
    using T0 init_creates [of tick_clock "''strcpy''" "''main''"]
    by (simp add: num_entries_init init_state_def)
  show ?thesis using a b c d by blast
qed

text \<open>
  C9 as stated fails: after \<open>2 ^ 64\<close> calls with one pair of names the table has
  one entry, and its count is 0.
\<close>

theorem C9_count_zero_after_wrap:
  "num_entries (log_calls tick_clock
      (replicate 18446744073709551616 (''strcpy'', ''main'')) init_state) = 1
   \<and> count (profile_data (log_calls tick_clock
      (replicate 18446744073709551616 (''strcpy'', ''main'')) init_state) ! 0) = 0"
  using same_short_key [OF short_literals(1,2), of 18446744073709551616 tick_clock] by simp

section \<open>The claims about the report\<close>

lemma write_profile_data_ok:
  assumes "table_inv s"
  defines "tc \<equiv> sum_counts (profile_data s) (num_entries s)"
  shows "out_file (fst (write_profile_data True s)) =
           Some \<lparr>r_profile_data = map (report_line tc) (entries s),
                 r_total_dangerous_calls = tc, r_unique_call_sites = num_entries s\<rparr>"
    and "console (fst (write_profile_data True s)) =
           [Banner, TotalCalls tc, UniqueSites (num_entries s),
            WrittenTo ''dangerous_api_profile.json'', TopHeader]
           @ map (console_entry tc) (take 10 (entries s))"
    and "err_stream (fst (write_profile_data True s)) = []"
    and "snd (write_profile_data True s) = s"
proof -
  have a: "map (\<lambda>i. report_line tc (profile_data s ! i)) [0..<num_entries s]
            = map (report_line tc) (entries s)"
    by (rule entries_reachable_nth [OF assms(1), symmetric])
  have b: "map (\<lambda>i. console_entry tc (profile_data s ! i)) [0..<min (num_entries s) 10]
            = map (console_entry tc) (take 10 (entries s))"
    by (rule take_entries_nth [OF assms(1), symmetric])
  show "out_file (fst (write_profile_data True s)) =
           Some \<lparr>r_profile_data = map (report_line tc) (entries s),
                 r_total_dangerous_calls = tc, r_unique_call_sites = num_entries s\<rparr>"
    using a by (simp add: write_profile_data_def Let_def tc_def)
  show "console (fst (write_profile_data True s)) =
           [Banner, TotalCalls tc, UniqueSites (num_entries s),
            WrittenTo ''dangerous_api_profile.json'', TopHeader]
           @ map (console_entry tc) (take 10 (entries s))"
    using b by (simp add: write_profile_data_def Let_def tc_def)
  show "err_stream (fst (write_profile_data True s)) = []"
    by (simp add: write_profile_data_def Let_def)
  show "snd (write_profile_data True s) = s"
    by (simp add: write_profile_data_def Let_def)
qed

lemma entries_length: "table_inv s \<Longrightarrow> length (entries s) = num_entries s"
  by (simp add: entries_def table_inv_def)

lemma entries_nth: "i < num_entries s \<Longrightarrow> entries s ! i = profile_data s ! i"
  by (simp add: entries_def)

lemma unat_total_no_wrap:
  assumes "total_count s < 2 ^ 64"
  shows "unat (sum_counts (profile_data s) (num_entries s)) = total_count s"
  using assms by (simp add: unat_sum_counts)

lemma fdiv_Some: "y \<noteq> 0 \<Longrightarrow> fdiv x y = Some (x / y)"
  by (simp add: fdiv_def)

lemma report_line_percentage:
  "r_percentage_of_total (report_line tc e) =
     Some (if 0 < tc then of_nat (unat (count e)) * 100 / of_nat (unat tc) else 0)"
proof (cases "0 < tc")
  case True
  then have "tc \<noteq> 0" by auto
  then have "(of_nat (unat tc) :: rat) \<noteq> 0" by (simp add: unsigned_eq_0_iff)
  then show ?thesis using True by (simp add: report_line_def fdiv_Some)
next
  case False
  then show ?thesis by (simp add: report_line_def)
qed

text \<open>
  In every state reached by fewer than \<open>2 ^ 64\<close> complete calls, every entry counts
  at least 1 and \<open>total_calls\<close> is at least the number of entries, so no percentage
  the exit handler computes on such a state is a division by zero: neither one in the
  report nor one in a call-site line of the console.
\<close>

lemma divisions_below_wrap:
  fixes clk ks
  defines "s \<equiv> log_calls clk ks init_state"
  defines "total_calls \<equiv> sum_counts (profile_data (log_calls clk ks init_state))
                            (num_entries (log_calls clk ks init_state))"
  assumes "length ks < 2 ^ 64"
  shows "num_entries s \<le> unat total_calls
       \<and> (\<forall>i < num_entries s. 1 \<le> unat (count (profile_data s ! i)))
       \<and> (\<forall>l \<in> set (console (fst (write_profile_data True s))).
             \<forall>x y z p. l = CallSite x y z p \<longrightarrow> p \<noteq> None)
       \<and> (\<forall>rep. out_file (fst (write_profile_data True s)) = Some rep \<longrightarrow>
             (\<forall>e \<in> set (r_profile_data rep). r_percentage_of_total e \<noteq> None))"
proof -
  have inv: "table_inv s" unfolding s_def by (rule reachable_inv)
  have ci: "counts_inv (length ks) s"
    unfolding s_def by (rule counts_inv_reachable [OF assms(3)])
  have tc: "total_calls = sum_counts (profile_data s) (num_entries s)"
    by (simp add: total_calls_def s_def)
  have "total_count s < 2 ^ 64" using ci assms(3) by (simp add: counts_inv_def)
  then have u: "unat total_calls = total_count s"
    unfolding tc by (rule unat_total_no_wrap)
  have 1: "num_entries s \<le> unat total_calls"
    using total_ge_entries [OF ci] u by simp
  have 2: "\<forall>i < num_entries s. 1 \<le> unat (count (profile_data s ! i))"
    using ci by (simp add: counts_inv_def)
  have 3: "\<forall>l \<in> set (console (fst (write_profile_data True s))).
             \<forall>x y z p. l = CallSite x y z p \<longrightarrow> p \<noteq> None"
  proof (intro ballI allI impI)
    fix l x y z p
    assume l: "l \<in> set (console (fst (write_profile_data True s)))" "l = CallSite x y z p"
    then have "CallSite x y z p \<in> set (map (console_entry total_calls) (take 10 (entries s)))"
      unfolding write_profile_data_ok(2) [OF inv] tc by auto
    then obtain e where e: "e \<in> set (entries s)" "CallSite x y z p = console_entry total_calls e"
      by (auto dest: in_set_takeD)
    then have "0 < num_entries s" by (cases "num_entries s") (auto simp: entries_def)
    then have "unat total_calls \<noteq> 0" using 1 by simp
    then have "(of_nat (unat total_calls) :: rat) \<noteq> 0" by (simp only: of_nat_eq_0_iff) simp
    then show "p \<noteq> None" using e(2) by (simp add: console_entry_def fdiv_Some)
  qed
  have 4: "\<forall>rep. out_file (fst (write_profile_data True s)) = Some rep \<longrightarrow>
             (\<forall>e \<in> set (r_profile_data rep). r_percentage_of_total e \<noteq> None)"
    unfolding write_profile_data_ok(1) [OF inv] by (auto simp: report_line_percentage)
  show ?thesis using 1 2 3 4 by blast
qed

lemma sum_counts_one: "sum_counts pd 1 = count (pd ! 0)"
  by (simp add: sum_counts_def)

lemma sum_counts_two: "sum_counts pd 2 = count (pd ! 0) + count (pd ! 1)"
proof -
  have "[0..<2] = [0, 1]" by (simp add: upt_rec)
  then show ?thesis by (simp add: sum_counts_def)
qed

lemma entries_one:
  assumes "table_inv s" "num_entries s = 1"
  shows "entries s = [profile_data s ! 0]"
proof -
  have "length (entries s) = 1" using assms by (simp add: entries_length)
  moreover have "entries s ! 0 = profile_data s ! 0" using assms by (simp add: entries_nth)
  ultimately show ?thesis by (cases "entries s") simp_all
qed

lemma entries_two:
  assumes "table_inv s" "num_entries s = 2"
  shows "entries s = [profile_data s ! 0, profile_data s ! 1]"
  unfolding entries_def assms(2) using assms
  by (intro take_2_nth) (simp add: table_inv_def)

lemma single_site_run:
  "num_entries (log_calls clk [(''strcpy'', ''main'')] init_state) = 1"
  "table_inv (log_calls clk [(''strcpy'', ''main'')] init_state)"
  "count (profile_data (log_calls clk [(''strcpy'', ''main'')] init_state) ! 0) = 1"
  "entry_key (profile_data (log_calls clk [(''strcpy'', ''main'')] init_state) ! 0)
     = (''strcpy'', ''main'')"
  using same_short_key [OF short_literals(1,2), of 1 clk] by (simp_all add: c_str_strcpy)

text \<open>
  At a concrete run: after one call the total is 1, and the percentage is 100 in
  the console line and in the report.
\<close>

lemma divisions_single_call:
  "num_entries (log_calls tick_clock [(''strcpy'', ''main'')] init_state)
     \<le> unat (sum_counts (profile_data (log_calls tick_clock [(''strcpy'', ''main'')] init_state))
               (num_entries (log_calls tick_clock [(''strcpy'', ''main'')] init_state)))
   \<and> 1 \<le> unat (count (profile_data (log_calls tick_clock [(''strcpy'', ''main'')] init_state) ! 0))
   \<and> console (fst (write_profile_data True (log_calls tick_clock [(''strcpy'', ''main'')] init_state)))
       ! 5 = CallSite ''main'' ''strcpy'' 1 (Some 100)
   \<and> map_option (map r_percentage_of_total \<circ> r_profile_data)
        (out_file (fst (write_profile_data True (log_calls tick_clock [(''strcpy'', ''main'')] init_state))))
       = Some [Some 100]"
proof -
  let ?S = "log_calls tick_clock [(''strcpy'', ''main'')] init_state"
  let ?tc = "sum_counts (profile_data ?S) (num_entries ?S)"
  have len: "length [(''strcpy'', ''main'')] < (2::nat) ^ 64" by simp
  note T = divisions_below_wrap [OF len, of tick_clock]
  note R = single_site_run [of tick_clock]
  have tc: "?tc = 1" unfolding R(1) sum_counts_one R(3) ..
  have e: "entries ?S = [profile_data ?S ! 0]" by (rule entries_one [OF R(2) R(1)])
  have k: "c_str (api_name (profile_data ?S ! 0)) = ''strcpy''"
    "c_str (caller_name (profile_data ?S ! 0)) = ''main''"
    using R(4) by (simp_all add: entry_key_def)
  have con: "console (fst (write_profile_data True ?S)) ! 5 = CallSite ''main'' ''strcpy'' 1 (Some 100)"
    unfolding write_profile_data_ok(2) [OF R(2)] tc e
    by (simp add: console_entry_def k R(3) fdiv_def del: log_calls.simps)
  have rep: "map_option (map r_percentage_of_total \<circ> r_profile_data)
        (out_file (fst (write_profile_data True ?S))) = Some [Some 100]"
    unfolding write_profile_data_ok(1) [OF R(2)] tc e
    by (simp add: report_line_percentage R(3) del: log_calls.simps)
  have a: "num_entries ?S \<le> unat ?tc" using T by blast
  have b: "1 \<le> unat (count (profile_data ?S ! 0))" using T R(1) by (simp del: log_calls.simps)
  show ?thesis using a b con rep by blast
qed

text \<open>
  After \<open>2 ^ 64\<close> calls with one pair of names the console shows one call site, and
  its percentage is a division by \<open>total_calls = 0\<close>.
\<close>

lemma console_after_wrap:
  "console (fst (write_profile_data True
      (log_calls tick_clock (replicate 18446744073709551616 (''strcpy'', ''main'')) init_state)))
   = [Banner, TotalCalls 0, UniqueSites 1, WrittenTo ''dangerous_api_profile.json'', TopHeader,
      CallSite ''main'' ''strcpy'' 0 None]"
proof -
  let ?S = "log_calls tick_clock (replicate 18446744073709551616 (''strcpy'', ''main'')) init_state"
  have S: "num_entries ?S = 1" "table_inv ?S" "count (profile_data ?S ! 0) = 0"
    "entry_key (profile_data ?S ! 0) = (''strcpy'', ''main'')"
    using same_short_key [OF short_literals(1,2), of 18446744073709551616 tick_clock]
    by (simp_all add: c_str_strcpy)
  have tc: "sum_counts (profile_data ?S) (num_entries ?S) = 0"
    unfolding S(1) sum_counts_one S(3) ..
  have e: "entries ?S = [profile_data ?S ! 0]" by (rule entries_one [OF S(2) S(1)])
  have k: "c_str (api_name (profile_data ?S ! 0)) = ''strcpy''"
    "c_str (caller_name (profile_data ?S ! 0)) = ''main''"
    using S(4) by (simp_all add: entry_key_def)
  have "console (fst (write_profile_data True ?S)) =
      [Banner, TotalCalls 0, UniqueSites (num_entries ?S),
       WrittenTo ''dangerous_api_profile.json'', TopHeader]
      @ map (console_entry 0) (take 10 [profile_data ?S ! 0])"
    using write_profile_data_ok(2) [OF S(2)] by (simp only: tc e)
  then show ?thesis
    by (simp add: S(1) console_entry_def k S(3) fdiv_def)
qed

text \<open>
  The exit handler takes no lock, so it can run while a call of \<^verbatim>\<open>profiling_log\<close> is
  between \<^verbatim>\<open>find_or_create_entry\<close> and \<^verbatim>\<open>count++\<close>. For the first call of a run
  the table then has one entry, created with count 0.
\<close>

lemma find_or_create_entry_init:
  "find_or_create_entry clk a c init_state =
     (Some 0,
      \<lparr>profile_data = (replicate MAX_ENTRIES zero_entry)
          [0 := \<lparr>api_name = strncpy (replicate MAX_NAME_LEN NUL) a (MAX_NAME_LEN - 1),
                 caller_name = strncpy (replicate MAX_NAME_LEN NUL) c (MAX_NAME_LEN - 1),
                 count = 0, first_call = clk 0, last_call = zero_timespec\<rparr>],
       num_entries = 1, clock_reads = 1\<rparr>)"
  by (simp add: find_or_create_entry_def search_entries_step [of _ 0] init_state_def
      clock_gettime_def zero_entry_def MAX_ENTRIES_def del: One_nat_def)

lemma mid_call_output:
  "console (fst (write_profile_data True (snd (find_or_create_entry tick_clock ''strcpy'' ''main'' init_state))))
     = [Banner, TotalCalls 0, UniqueSites 1, WrittenTo ''dangerous_api_profile.json'', TopHeader,
        CallSite ''main'' ''strcpy'' 0 None]"
  "map_option (map r_percentage_of_total \<circ> r_profile_data)
      (out_file (fst (write_profile_data True
         (snd (find_or_create_entry tick_clock ''strcpy'' ''main'' init_state)))))
     = Some [Some 0]"
proof -
  define m where "m = snd (find_or_create_entry tick_clock ''strcpy'' ''main'' init_state)"
  have n: "num_entries m = Suc 0"
    by (simp add: m_def find_or_create_entry_init)
  have e: "profile_data m ! 0 =
      \<lparr>api_name = strncpy (replicate MAX_NAME_LEN NUL) ''strcpy'' (MAX_NAME_LEN - 1),
       caller_name = strncpy (replicate MAX_NAME_LEN NUL) ''main'' (MAX_NAME_LEN - 1),
       count = 0, first_call = tick_clock 0, last_call = zero_timespec\<rparr>"
    by (simp add: m_def find_or_create_entry_init MAX_ENTRIES_def del: One_nat_def)
  have k: "c_str (api_name (profile_data m ! 0)) = ''strcpy''"
    "c_str (caller_name (profile_data m ! 0)) = ''main''"
    "count (profile_data m ! 0) = 0"
    unfolding e
    by (simp_all add: c_str_zero_strncpy c_str_strcpy del: One_nat_def)
      (simp_all add: MAX_NAME_LEN_def)
  have "console (fst (write_profile_data True m))
     = [Banner, TotalCalls 0, UniqueSites 1, WrittenTo ''dangerous_api_profile.json'', TopHeader,
        CallSite ''main'' ''strcpy'' 0 None]"
    by (simp add: write_profile_data_def Let_def sum_counts_def console_entry_def fdiv_def n k)
  then show "console (fst (write_profile_data True (snd (find_or_create_entry tick_clock ''strcpy'' ''main'' init_state))))
     = [Banner, TotalCalls 0, UniqueSites 1, WrittenTo ''dangerous_api_profile.json'', TopHeader,
        CallSite ''main'' ''strcpy'' 0 None]"
    unfolding m_def .
  have "map_option (map r_percentage_of_total \<circ> r_profile_data)
      (out_file (fst (write_profile_data True m))) = Some [Some 0]"
    by (simp add: write_profile_data_def Let_def sum_counts_def report_line_def n k)
  then show "map_option (map r_percentage_of_total \<circ> r_profile_data)
      (out_file (fst (write_profile_data True
         (snd (find_or_create_entry tick_clock ''strcpy'' ''main'' init_state)))))
     = Some [Some 0]"
    unfolding m_def .
qed

lemma wrap_report:
  "map_option (map r_percentage_of_total \<circ> r_profile_data)
      (out_file (fst (write_profile_data True
         (log_calls tick_clock (replicate 18446744073709551616 (''strcpy'', ''main'')) init_state))))
     = Some [Some 0]"
proof -
  let ?S = "log_calls tick_clock (replicate 18446744073709551616 (''strcpy'', ''main'')) init_state"
  have S: "num_entries ?S = 1" "table_inv ?S" "count (profile_data ?S ! 0) = 0"
    using same_short_key [OF short_literals(1,2), of 18446744073709551616 tick_clock]
    by (simp_all add: c_str_strcpy)
  have tc: "sum_counts (profile_data ?S) (num_entries ?S) = 0"
    unfolding S(1) sum_counts_one S(3) ..
  have e: "entries ?S = [profile_data ?S ! 0]" by (rule entries_one [OF S(2) S(1)])
  show ?thesis
    unfolding write_profile_data_ok(1) [OF S(2)] tc e
    by (simp add: report_line_percentage)
qed

text \<open>
  C10: the report guards its percentage by \<open>total_calls > 0\<close>; the call-site line of
  the console computes the same quotient with no guard. On the table as the first call
  of \<^verbatim>\<open>profiling_log\<close> leaves it between \<^verbatim>\<open>find_or_create_entry\<close> and \<^verbatim>\<open>count++\<close>
  (one entry, count 0, so \<open>total_calls = 0\<close>) the report holds the percentage 0 and the
  console line is a division by zero. So it is on the table after \<open>2 ^ 64\<close> complete
  calls with one pair of names, where the count of the one entry has wrapped to 0.
\<close>

theorem C10_console_division_by_zero:
  "console (fst (write_profile_data True
      (snd (find_or_create_entry tick_clock ''strcpy'' ''main'' init_state))))
     = [Banner, TotalCalls 0, UniqueSites 1, WrittenTo ''dangerous_api_profile.json'', TopHeader,
        CallSite ''main'' ''strcpy'' 0 None]
   \<and> map_option (map r_percentage_of_total \<circ> r_profile_data)
       (out_file (fst (write_profile_data True
          (snd (find_or_create_entry tick_clock ''strcpy'' ''main'' init_state)))))
     = Some [Some 0]
   \<and> console (fst (write_profile_data True
      (log_calls tick_clock (replicate 18446744073709551616 (''strcpy'', ''main'')) init_state)))
     = [Banner, TotalCalls 0, UniqueSites 1, WrittenTo ''dangerous_api_profile.json'', TopHeader,
        CallSite ''main'' ''strcpy'' 0 None]
   \<and> map_option (map r_percentage_of_total \<circ> r_profile_data)
       (out_file (fst (write_profile_data True
          (log_calls tick_clock (replicate 18446744073709551616 (''strcpy'', ''main'')) init_state))))
     = Some [Some 0]"
  using mid_call_output console_after_wrap wrap_report by (intro conjI)

lemma percentages_sum:
  fixes f :: "nat \<Rightarrow> nat"
  assumes "0 < (\<Sum>i < n. f i)"
  shows "(\<Sum>i < n. (of_nat (f i) :: rat) * 100 / of_nat (\<Sum>i < n. f i)) = 100"
proof -
  have "(\<Sum>i < n. f i) \<noteq> 0" using assms by linarith
  then have nz: "(of_nat (\<Sum>i < n. f i) :: rat) \<noteq> 0" by (simp only: of_nat_eq_0_iff not_False_eq_True)
  have "(\<Sum>i < n. (of_nat (f i) :: rat) * 100 / of_nat (\<Sum>i < n. f i))
          = (\<Sum>i < n. of_nat (f i)) * 100 / of_nat (\<Sum>i < n. f i)"
    by (simp only: sum_divide_distrib sum_distrib_right)
  also have "(\<Sum>i < n. (of_nat (f i) :: rat)) = of_nat (\<Sum>i < n. f i)"
    by (simp only: of_nat_sum)
  finally show ?thesis using nz by simp
qed

lemma sum_list_entries:
  assumes "table_inv s"
  shows "sum_list (map g (entries s)) = (\<Sum>i < num_entries s. g (profile_data s ! i))"
proof -
  have "sum_list (map g (entries s)) = sum_list (map (\<lambda>i. g (profile_data s ! i)) [0..<num_entries s])"
    by (simp only: entries_reachable_nth [OF assms])
  also have "\<dots> = (\<Sum>i \<in> set [0..<num_entries s]. g (profile_data s ! i))"
    by (rule interv_sum_list_conv_sum_set_nat)
  also have "set [0..<num_entries s] = {..<num_entries s}" by auto
  finally show ?thesis .
qed

text \<open>
  C6, as amended: in the report written for a state the runtime reaches,
  \<open>total_dangerous_calls\<close> is the sum of the entries' counts modulo \<open>2 ^ 64\<close>,
  \<open>unique_call_sites\<close> is the number of entries, there is one report entry per table
  entry, with its count and with the percentage \<open>count * 100 / total\<close> when the total
  is positive and 0 when it is 0. In exact arithmetic the percentages add up to 100
  when the total is positive and the counts add up to less than \<open>2 ^ 64\<close>; they are
  all 0 when the total is 0. With a sum of \<open>2 ^ 64 + 1\<close> the total is 1 and the
  percentages add up to far more than 100.
\<close>

theorem C6_report_totals:
  fixes clk ks
  defines "s \<equiv> log_calls clk ks init_state"
  shows "\<exists>rep. out_file (fst (write_profile_data True s)) = Some rep
     \<and> unat (r_total_dangerous_calls rep)
         = (\<Sum>i < num_entries s. unat (count (profile_data s ! i))) mod 2 ^ 64
     \<and> r_unique_call_sites rep = num_entries s
     \<and> length (r_profile_data rep) = num_entries s
     \<and> (\<forall>i < num_entries s.
          r_execution_count (r_profile_data rep ! i) = count (profile_data s ! i)
          \<and> r_percentage_of_total (r_profile_data rep ! i) =
              Some (if 0 < r_total_dangerous_calls rep
                    then of_nat (unat (count (profile_data s ! i))) * 100
                           / of_nat (unat (r_total_dangerous_calls rep))
                    else 0))
     \<and> ((\<Sum>i < num_entries s. unat (count (profile_data s ! i))) < 2 ^ 64
          \<and> 0 < r_total_dangerous_calls rep
         \<longrightarrow> sum_list (map (the \<circ> r_percentage_of_total) (r_profile_data rep)) = 100)
     \<and> (r_total_dangerous_calls rep = 0
         \<longrightarrow> (\<forall>e \<in> set (r_profile_data rep). r_percentage_of_total e = Some 0))"
proof -
  let ?tc = "sum_counts (profile_data s) (num_entries s)"
  let ?rep = "\<lparr>r_profile_data = map (report_line ?tc) (entries s),
                r_total_dangerous_calls = ?tc, r_unique_call_sites = num_entries s\<rparr>"
  have inv: "table_inv s" unfolding s_def by (rule reachable_inv)
  have 0: "out_file (fst (write_profile_data True s)) = Some ?rep"
    by (rule write_profile_data_ok(1) [OF inv])
  have 1: "unat ?tc = (\<Sum>i < num_entries s. unat (count (profile_data s ! i))) mod 2 ^ 64"
    using unat_sum_counts [of s] by (simp only: total_count_def)
  have 2: "length (map (report_line ?tc) (entries s)) = num_entries s"
    using inv by (simp add: entries_length)
  have 3: "\<forall>i < num_entries s.
          r_execution_count (map (report_line ?tc) (entries s) ! i) = count (profile_data s ! i)
          \<and> r_percentage_of_total (map (report_line ?tc) (entries s) ! i) =
              Some (if 0 < ?tc
                    then of_nat (unat (count (profile_data s ! i))) * 100 / of_nat (unat ?tc)
                    else 0)"
  proof (intro allI impI)
    fix i assume i: "i < num_entries s"
    then have "map (report_line ?tc) (entries s) ! i = report_line ?tc (profile_data s ! i)"
      using inv by (simp add: entries_length entries_nth)
    then show "r_execution_count (map (report_line ?tc) (entries s) ! i) = count (profile_data s ! i)
          \<and> r_percentage_of_total (map (report_line ?tc) (entries s) ! i) =
              Some (if 0 < ?tc
                    then of_nat (unat (count (profile_data s ! i))) * 100 / of_nat (unat ?tc)
                    else 0)"
      by (simp only: report_line_percentage) (simp add: report_line_def)
  qed
  have 4: "(\<Sum>i < num_entries s. unat (count (profile_data s ! i))) < 2 ^ 64 \<and> 0 < ?tc
         \<longrightarrow> sum_list (map (the \<circ> r_percentage_of_total) (map (report_line ?tc) (entries s))) = 100"
  proof
    assume h: "(\<Sum>i < num_entries s. unat (count (profile_data s ! i))) < 2 ^ 64 \<and> 0 < ?tc"
    then have u: "unat ?tc = (\<Sum>i < num_entries s. unat (count (profile_data s ! i)))"
      using 1 by simp
    have "?tc \<noteq> 0" using h by auto
    then have "unat ?tc \<noteq> 0" by (simp add: unat_eq_zero)
    then have pos: "0 < (\<Sum>i < num_entries s. unat (count (profile_data s ! i)))"
      using u by linarith
    have "sum_list (map (the \<circ> r_percentage_of_total) (map (report_line ?tc) (entries s)))
        = sum_list (map (\<lambda>e. of_nat (unat (count e)) * 100 / of_nat (unat ?tc)) (entries s))"
      using h by (simp only: map_map comp_def report_line_percentage option.sel if_True)
    also have "\<dots> = (\<Sum>i < num_entries s.
                  of_nat (unat (count (profile_data s ! i))) * 100 / of_nat (unat ?tc))"
      by (rule sum_list_entries [OF inv])
    also have "\<dots> = 100"
      unfolding u by (rule percentages_sum [OF pos])
    finally show "sum_list (map (the \<circ> r_percentage_of_total) (map (report_line ?tc) (entries s))) = 100" .
  qed
  have 5: "?tc = 0 \<longrightarrow>
      (\<forall>e \<in> set (map (report_line ?tc) (entries s)). r_percentage_of_total e = Some 0)"
    by (auto simp: report_line_percentage)
  show ?thesis
    using 0 1 2 3 4 5 by (intro exI [of _ ?rep]) simp
qed

text \<open>
  C6 at concrete runs: after one call the total is 1 and the percentages add up to
  100; after \<open>2 ^ 64\<close> calls with one pair of names the total is 0 and the
  percentage of the only entry is 0.
\<close>

theorem C6_report_totals_witness:
  "map_option r_total_dangerous_calls
     (out_file (fst (write_profile_data True (log_calls tick_clock [(''strcpy'', ''main'')] init_state))))
     = Some 1
   \<and> map_option (sum_list \<circ> map (the \<circ> r_percentage_of_total) \<circ> r_profile_data)
     (out_file (fst (write_profile_data True (log_calls tick_clock [(''strcpy'', ''main'')] init_state))))
     = Some 100
   \<and> map_option (map r_percentage_of_total \<circ> r_profile_data)
     (out_file (fst (write_profile_data True (log_calls tick_clock
        (replicate 18446744073709551616 (''strcpy'', ''main'')) init_state))))
     = Some [Some 0]"
proof -
  let ?S = "log_calls tick_clock [(''strcpy'', ''main'')] init_state"
  let ?W = "log_calls tick_clock (replicate 18446744073709551616 (''strcpy'', ''main'')) init_state"
  note R = single_site_run [of tick_clock]
  have sum1: "(\<Sum>i < num_entries ?S. unat (count (profile_data ?S ! i))) = 1"
    unfolding R(1) by (simp add: R(3) del: log_calls.simps)
  obtain rep where rep: "out_file (fst (write_profile_data True ?S)) = Some rep"
    "unat (r_total_dangerous_calls rep)
       = (\<Sum>i < num_entries ?S. unat (count (profile_data ?S ! i))) mod 2 ^ 64"
    "(\<Sum>i < num_entries ?S. unat (count (profile_data ?S ! i))) < 2 ^ 64
          \<and> 0 < r_total_dangerous_calls rep
         \<longrightarrow> sum_list (map (the \<circ> r_percentage_of_total) (r_profile_data rep)) = 100"
    using C6_report_totals [of tick_clock "[(''strcpy'', ''main'')]"] by blast
  have "unat (r_total_dangerous_calls rep) = 1" using rep(2) unfolding sum1 by simp
  then have t: "r_total_dangerous_calls rep = 1" by (simp add: word_unat_eq_iff)
  then have "sum_list (map (the \<circ> r_percentage_of_total) (r_profile_data rep)) = 100"
    using rep(3) unfolding sum1 by simp
  then have a: "map_option r_total_dangerous_calls (out_file (fst (write_profile_data True ?S))) = Some 1
   \<and> map_option (sum_list \<circ> map (the \<circ> r_percentage_of_total) \<circ> r_profile_data)
       (out_file (fst (write_profile_data True ?S))) = Some 100"
    unfolding rep(1) using t by simp
  have W: "num_entries ?W = 1" "count (profile_data ?W ! 0) = 0"
    using same_short_key [OF short_literals(1,2), of 18446744073709551616 tick_clock]
    by simp_all
  have sumW: "(\<Sum>i < num_entries ?W. unat (count (profile_data ?W ! i))) = 0"
    unfolding W(1) by (simp add: W(2))
  obtain repW where repW: "out_file (fst (write_profile_data True ?W)) = Some repW"
    "unat (r_total_dangerous_calls repW)
       = (\<Sum>i < num_entries ?W. unat (count (profile_data ?W ! i))) mod 2 ^ 64"
    "length (r_profile_data repW) = num_entries ?W"
    "r_total_dangerous_calls repW = 0
         \<longrightarrow> (\<forall>e \<in> set (r_profile_data repW). r_percentage_of_total e = Some 0)"
    using C6_report_totals [of tick_clock "replicate 18446744073709551616 (''strcpy'', ''main'')"]
    by blast
  have "unat (r_total_dangerous_calls repW) = 0" using repW(2) unfolding sumW by simp
  then have "r_total_dangerous_calls repW = 0" by (simp add: unat_eq_zero)
  then have z: "\<forall>e \<in> set (r_profile_data repW). r_percentage_of_total e = Some 0"
    using repW(4) by blast
  obtain e where e: "r_profile_data repW = [e]"
    using repW(3) unfolding W(1) by (cases "r_profile_data repW") simp_all
  have b: "map_option (map r_percentage_of_total \<circ> r_profile_data)
     (out_file (fst (write_profile_data True ?W))) = Some [Some 0]"
    unfolding repW(1) using z e by simp
  show ?thesis using a b by blast
qed

text \<open>
  C6 as stated fails: after \<open>2 ^ 64 - 1\<close> calls from \<^verbatim>\<open>main\<close> and 2 from
  \<^verbatim>\<open>helper\<close> the total in the report is 1, and the two percentages are
  \<open>(2 ^ 64 - 1) * 100\<close> and 200.
\<close>

theorem C6_percentages_after_wrap:
  "map_option r_total_dangerous_calls
     (out_file (fst (write_profile_data True (log_calls tick_clock
        (replicate 18446744073709551615 (''strcpy'', ''main'') @ replicate 2 (''strcpy'', ''helper''))
        init_state))))
     = Some 1
   \<and> map_option (map r_percentage_of_total \<circ> r_profile_data)
     (out_file (fst (write_profile_data True (log_calls tick_clock
        (replicate 18446744073709551615 (''strcpy'', ''main'') @ replicate 2 (''strcpy'', ''helper''))
        init_state))))
     = Some [Some 1844674407370955161500, Some 200]"
proof -
  let ?S = "log_calls tick_clock
        (replicate 18446744073709551615 (''strcpy'', ''main'') @ replicate 2 (''strcpy'', ''helper''))
        init_state"
  have S: "num_entries ?S = 2" "table_inv ?S"
    "count (profile_data ?S ! 0) = 18446744073709551615" "count (profile_data ?S ! 1) = 2"
    using two_short_keys [OF short_literals(1,2) short_literals(1,3) strcpy_keys_differ,
      of 18446744073709551615 2 tick_clock]
    by simp_all
  have tc: "sum_counts (profile_data ?S) (num_entries ?S) = 1"
    unfolding S(1) sum_counts_two S(3,4) by simp
  have e: "entries ?S = [profile_data ?S ! 0, profile_data ?S ! 1]"
    by (rule entries_two [OF S(2) S(1)])
  have "out_file (fst (write_profile_data True ?S)) =
      Some \<lparr>r_profile_data = map (report_line 1) [profile_data ?S ! 0, profile_data ?S ! 1],
            r_total_dangerous_calls = 1, r_unique_call_sites = num_entries ?S\<rparr>"
    using write_profile_data_ok(1) [OF S(2)] by (simp only: tc e)
  moreover have "count (profile_data ?S ! Suc 0) = 2" using S(4) by simp
  ultimately show ?thesis
    by (simp add: report_line_percentage S(3))
qed

section \<open>A full table and a name that is cut\<close>

text \<open>
  Calls with a name of \<open>MAX_NAME_LEN\<close> bytes or more never find an entry: each of them
  makes a new entry as long as the table has room, all with the same stored key, and
  is dropped once the table is full.
\<close>

lemma entries_add_entry:
  assumes "table_inv s" "num_entries s < MAX_ENTRIES"
  shows "entries (add_entry clk a c s) = entries s @ [new_entry clk a c s]"
proof -
  have len: "length (profile_data s) = MAX_ENTRIES" using assms by (simp add: table_inv_def)
  show ?thesis
    using assms(2) len by (simp add: entries_def add_entry_def take_Suc_conv_app_nth)
qed

lemma long_name_run:
  assumes "table_inv s" "MAX_NAME_LEN \<le> length (c_str a) \<or> MAX_NAME_LEN \<le> length (c_str c)"
    "num_entries s + m \<le> MAX_ENTRIES"
  shows "table_inv (log_calls clk (replicate m (a, c)) s)
     \<and> map entry_key (entries (log_calls clk (replicate m (a, c)) s))
         = map entry_key (entries s) @ replicate m (key_trunc (a, c))
     \<and> map count (entries (log_calls clk (replicate m (a, c)) s))
         = map count (entries s) @ replicate m 1"
  using assms
proof (induction m arbitrary: s)
  case 0
  then show ?case by simp
next
  case (Suc m)
  let ?s' = "add_entry clk a c s"
  have n: "num_entries s < MAX_ENTRIES" using Suc.prems(3) by simp
  have step: "profiling_log clk a c s = ?s'"
    by (rule profiling_log_no_match [OF Suc.prems(1) long_name_no_match [OF Suc.prems(1,2)] n])
  have inv': "table_inv ?s'" by (rule table_inv_add [OF Suc.prems(1) n])
  have cap: "num_entries ?s' + m \<le> MAX_ENTRIES" using Suc.prems(3) by simp
  have e: "entries ?s' = entries s @ [new_entry clk a c s]"
    by (rule entries_add_entry [OF Suc.prems(1) n])
  note IH = Suc.IH [OF inv' Suc.prems(2) cap]
  show ?case
    using IH by (simp add: step e entry_key_new_entry replicate_app_Cons_same)
qed

lemma long_name_dropped:
  assumes "table_inv s" "MAX_NAME_LEN \<le> length (c_str a) \<or> MAX_NAME_LEN \<le> length (c_str c)"
    "num_entries s = MAX_ENTRIES"
  shows "profiling_log clk a c s = s"
  using assms(1)
proof (cases rule: profiling_log_cases [where a = a and c = c and clk = clk])
  case (Found i)
  then show ?thesis using long_name_no_match [OF assms(1,2)] by blast
next
  case Created
  then show ?thesis using assms(3) by simp
next
  case Dropped
  then show ?thesis by simp
qed

lemma entries_init: "entries init_state = []"
  by (simp add: entries_def init_state_def)

lemma long_A_key:
  "key_trunc (replicate 256 CHR ''A'', ''main'') = (replicate 255 CHR ''A'', ''main'')"
  "MAX_NAME_LEN \<le> length (c_str (replicate 256 CHR ''A'')) \<or> MAX_NAME_LEN \<le> length (c_str ''main'')"
  by (simp_all add: key_trunc_def c_str_replicate NUL_def MAX_NAME_LEN_def c_str_strcpy)

text \<open>
  C2, at a full table and a name of 256 bytes: 1024 calls with the pair of names
  (256 bytes \<^verbatim>\<open>A\<close>, \<^verbatim>\<open>main\<close>) fill the table, every entry storing the key
  (255 bytes \<^verbatim>\<open>A\<close>, \<^verbatim>\<open>main\<close>) with count 1. The key of one more call with the same
  pair, as \<^verbatim>\<open>strncpy\<close> stores it, is present in every entry of the full table, and
  yet the call changes nothing: no count is updated. The cause is the one of C1: the
  search loop compares the stored, cut name with the whole argument.
\<close>

theorem C2_full_table_drops_stored_key:
  "map entry_key (entries (log_calls tick_clock
       (replicate 1024 (replicate 256 CHR ''A'', ''main'')) init_state))
     = replicate 1024 (replicate 255 CHR ''A'', ''main'')
   \<and> key_trunc (replicate 256 CHR ''A'', ''main'') = (replicate 255 CHR ''A'', ''main'')
   \<and> map count (entries (log_calls tick_clock
       (replicate 1024 (replicate 256 CHR ''A'', ''main'')) init_state))
     = replicate 1024 1
   \<and> num_entries (log_calls tick_clock
       (replicate 1024 (replicate 256 CHR ''A'', ''main'')) init_state) = 1024
   \<and> profiling_log tick_clock (replicate 256 CHR ''A'') ''main''
       (log_calls tick_clock (replicate 1024 (replicate 256 CHR ''A'', ''main'')) init_state)
     = log_calls tick_clock (replicate 1024 (replicate 256 CHR ''A'', ''main'')) init_state"
proof -
  let ?a = "replicate 256 CHR ''A''"
  let ?S = "log_calls tick_clock (replicate 1024 (?a, ''main'')) init_state"
  have cap: "num_entries init_state + 1024 \<le> MAX_ENTRIES"
    by (simp add: init_state_def MAX_ENTRIES_def)
  note R = long_name_run [OF table_inv_init long_A_key(2) cap, of tick_clock]
  have inv: "table_inv ?S" using R by (rule conjunct1)
  have keys: "map entry_key (entries ?S) = replicate 1024 (replicate 255 CHR ''A'', ''main'')"
    using R [THEN conjunct2, THEN conjunct1] by (simp only: entries_init long_A_key(1) list.map append_Nil)
  have counts: "map count (entries ?S) = replicate 1024 1"
    using R [THEN conjunct2, THEN conjunct2] by (simp only: entries_init list.map append_Nil)
  have "length (map count (entries ?S)) = 1024" unfolding counts by (rule length_replicate)
  then have "length (entries ?S) = 1024" by (simp only: length_map)
  then have n: "num_entries ?S = 1024" using entries_length [OF inv] by simp
  have full: "num_entries ?S = MAX_ENTRIES" unfolding n by (simp add: MAX_ENTRIES_def)
  have drop: "profiling_log tick_clock ?a ''main'' ?S = ?S"
    by (rule long_name_dropped [OF inv long_A_key(2) full])
  show ?thesis using keys long_A_key(1) counts n drop by (intro conjI)
qed

section \<open>The console summary\<close>

text \<open>
  The keys of the entries in use after a call, and after a sequence of calls with
  short names that the table has room for: the keys of the calls in the order of their
  first appearance.
\<close>

lemma length_insert_new: "length xs \<le> length (insert_new xs x)"
  by (simp add: insert_new_def)

lemma length_foldl_insert_new: "length xs \<le> length (foldl insert_new xs ys)"
proof (induction ys arbitrary: xs)
  case Nil
  show ?case by simp
next
  case (Cons y ys)
  have "length xs \<le> length (insert_new xs y)" by (rule length_insert_new)
  also have "\<dots> \<le> length (foldl insert_new (insert_new xs y) ys)" by (rule Cons.IH)
  finally show ?case by simp
qed

lemma entries_bump:
  assumes "table_inv s" "i < num_entries s"
  shows "map entry_key (entries (bump_entry clk i s)) = map entry_key (entries s)"
proof -
  have inv': "table_inv (bump_entry clk i s)" by (rule table_inv_bump [OF assms])
  have len: "i < length (profile_data s)" using assms by (simp add: table_inv_def)
  show ?thesis
    unfolding entries_reachable_nth [OF assms(1)] entries_reachable_nth [OF inv']
    using len assms(1)
    by (auto simp: bump_entry_nth entry_key_def table_inv_def)
qed

lemma entries_add:
  assumes "table_inv s" "num_entries s < MAX_ENTRIES"
  shows "map entry_key (entries (add_entry clk a c s)) = map entry_key (entries s) @ [key_trunc (a, c)]"
  by (simp add: entries_add_entry [OF assms] entry_key_new_entry)

lemma entries_keys_step:
  assumes inv: "table_inv s" and sh: "short_names (a, c)"
    and cap: "key_trunc (a, c) \<in> stored_keys s \<or> num_entries s < MAX_ENTRIES"
  shows "map entry_key (entries (profiling_log clk a c s))
           = insert_new (map entry_key (entries s)) (key_trunc (a, c))"
proof -
  have k: "key_trunc (a, c) = (c_str a, c_str c)"
    using sh by (simp add: short_names_def short_key_trunc)
  have sk: "\<And>j. j < num_entries s \<Longrightarrow> entry_key (profile_data s ! j) \<in> stored_keys s"
    using stored_keys_iff [OF table_inv_le_length [OF inv]] by blast
  from inv show ?thesis
  proof (cases rule: profiling_log_cases [where a = a and c = c and clk = clk])
    case (Found i)
    have "key_trunc (a, c) \<in> stored_keys s"
      using sk [OF Found(2)] Found(3) k by (simp add: key_match_entry_key)
    then show ?thesis
      by (simp add: Found(5) entries_bump [OF inv Found(2)] insert_new_def stored_keys_def)
  next
    case Created
    have "key_trunc (a, c) \<notin> stored_keys s"
      using Created(2) stored_keys_iff [OF table_inv_le_length [OF inv]] k
      by (auto simp: key_match_entry_key)
    then show ?thesis
      by (simp add: Created(4) entries_add [OF inv Created(3)] insert_new_def stored_keys_def)
  next
    case Dropped
    have "key_trunc (a, c) \<notin> stored_keys s"
      using Dropped(2) stored_keys_iff [OF table_inv_le_length [OF inv]] k
      by (auto simp: key_match_entry_key)
    then show ?thesis using cap Dropped(3) by simp
  qed
qed

lemma entries_keys_log_calls:
  assumes "table_inv s" "list_all short_names ks"
    "length (foldl insert_new (map entry_key (entries s)) (map key_trunc ks)) \<le> MAX_ENTRIES"
  shows "map entry_key (entries (log_calls clk ks s))
           = foldl insert_new (map entry_key (entries s)) (map key_trunc ks)"
  using assms
proof (induction ks arbitrary: s)
  case Nil
  show ?case by simp
next
  case (Cons k ks)
  obtain a c where k: "k = (a, c)" by (cases k)
  let ?K = "map entry_key (entries s)"
  let ?s' = "profiling_log clk a c s"
  have sh: "short_names (a, c)" using Cons.prems(2) k by simp
  have len: "length (insert_new ?K (key_trunc (a, c))) \<le> MAX_ENTRIES"
    using Cons.prems(3) length_foldl_insert_new [of "insert_new ?K (key_trunc (a, c))" "map key_trunc ks"]
    by (simp add: k)
  have n: "length ?K = num_entries s" using Cons.prems(1) by (simp add: entries_length)
  have cap: "key_trunc (a, c) \<in> stored_keys s \<or> num_entries s < MAX_ENTRIES"
    using len n by (auto simp: insert_new_def stored_keys_def split: if_splits)
  have step: "map entry_key (entries ?s') = insert_new ?K (key_trunc (a, c))"
    by (rule entries_keys_step [OF Cons.prems(1) sh cap])
  have inv': "table_inv ?s'" by (rule table_inv_profiling_log [OF Cons.prems(1)])
  have "map entry_key (entries (log_calls clk ks ?s'))
          = foldl insert_new (map entry_key (entries ?s')) (map key_trunc ks)"
    using Cons.prems(2,3) by (intro Cons.IH [OF inv']) (simp_all add: step k)
  then show ?case by (simp add: k step)
qed

lemma insertion_order:
  assumes "list_all short_names ks" "length (first_seen (map key_trunc ks)) \<le> MAX_ENTRIES"
  shows "map entry_key (entries (log_calls clk ks init_state)) = first_seen (map key_trunc ks)"
  using entries_keys_log_calls [OF table_inv_init assms(1), of clk] assms(2)
  by (simp add: entries_init first_seen_def)

lemma console_lines:
  assumes "table_inv s"
  defines "tc \<equiv> (of_nat (\<Sum>i < num_entries s. unat (count (profile_data s ! i))) :: ulong)"
  shows "console (fst (write_profile_data True s)) =
           [Banner, TotalCalls tc, UniqueSites (num_entries s),
            WrittenTo ''dangerous_api_profile.json'', TopHeader]
           @ map (\<lambda>e. CallSite (c_str (caller_name e)) (c_str (api_name e)) (count e)
                    (if tc = 0 then None
                     else Some (of_nat (unat (count e)) * 100 / of_nat (unat tc))))
               (take 10 (take (num_entries s) (profile_data s)))"
proof -
  have tc: "sum_counts (profile_data s) (num_entries s) = tc"
    unfolding tc_def by (rule sum_counts_of_nat)
  have z: "(of_nat (unat tc) = (0::rat)) = (tc = 0)"
    by (simp only: of_nat_eq_0_iff) (simp add: unat_eq_0)
  have ce: "console_entry tc = (\<lambda>e. CallSite (c_str (caller_name e)) (c_str (api_name e)) (count e)
                    (if tc = 0 then None
                     else Some (of_nat (unat (count e)) * 100 / of_nat (unat tc))))"
    unfolding console_entry_def fdiv_def z ..
  show ?thesis
    unfolding write_profile_data_ok(2) [OF assms(1)] tc ce entries_def ..
qed

text \<open>
  C7: when the report file was opened, the console shows the banner, the total call
  count (the sum of the counts of the entries in use, as an \<^verbatim>\<open>unsigned long\<close>), the
  number of unique call sites, the output path and the heading, and then one line for
  each of the first 10 entries of the table (all of them when there are fewer), in
  table order. A line shows the caller name, the API name and the count of its entry,
  and the count times 100 divided by the total. Table order is insertion order: a call
  of \<open>profiling_log\<close> only ever appends to the keys of the entries in use, and after
  calls with short names that the table has room for, the keys of the entries are the
  keys of the calls in the order of their first appearance. The state is any state
  the runtime reaches from its initial one.
\<close>

theorem C7_console_summary:
  fixes clk ks a c
  defines "s \<equiv> log_calls clk ks init_state"
  defines "tc \<equiv> (of_nat (\<Sum>i < num_entries (log_calls clk ks init_state).
                     unat (count (profile_data (log_calls clk ks init_state) ! i))) :: ulong)"
  shows "console (fst (write_profile_data True s)) =
           [Banner, TotalCalls tc, UniqueSites (num_entries s),
            WrittenTo ''dangerous_api_profile.json'', TopHeader]
           @ map (\<lambda>e. CallSite (c_str (caller_name e)) (c_str (api_name e)) (count e)
                    (if tc = 0 then None
                     else Some (of_nat (unat (count e)) * 100 / of_nat (unat tc))))
               (take 10 (take (num_entries s) (profile_data s)))
         \<and> num_entries s \<le> length (profile_data s)
         \<and> prefix (map entry_key (entries s)) (map entry_key (entries (profiling_log clk a c s)))
         \<and> (list_all short_names ks \<and> length (first_seen (map key_trunc ks)) \<le> MAX_ENTRIES
              \<longrightarrow> map entry_key (entries s) = first_seen (map key_trunc ks))"
proof -
  have inv: "table_inv s" unfolding s_def by (rule reachable_inv)
  have 1: "console (fst (write_profile_data True s)) =
           [Banner, TotalCalls tc, UniqueSites (num_entries s),
            WrittenTo ''dangerous_api_profile.json'', TopHeader]
           @ map (\<lambda>e. CallSite (c_str (caller_name e)) (c_str (api_name e)) (count e)
                    (if tc = 0 then None
                     else Some (of_nat (unat (count e)) * 100 / of_nat (unat tc))))
               (take 10 (take (num_entries s) (profile_data s)))"
    unfolding tc_def s_def [symmetric] by (rule console_lines [OF inv])
  have 2: "num_entries s \<le> length (profile_data s)" by (rule table_inv_le_length [OF inv])
  have 3: "prefix (map entry_key (entries s)) (map entry_key (entries (profiling_log clk a c s)))"
    by (rule entries_prefix_step [OF inv])
  have 4: "list_all short_names ks \<and> length (first_seen (map key_trunc ks)) \<le> MAX_ENTRIES
              \<longrightarrow> map entry_key (entries s) = first_seen (map key_trunc ks)"
    unfolding s_def using insertion_order by blast
  show ?thesis using 1 2 3 4 by (intro conjI)
qed

lemma first_seen_three:
  "first_seen (map key_trunc [(''strcpy'', ''main''), (''strcpy'', ''helper''), (''strcpy'', ''helper'')])
     = [(''strcpy'', ''main''), (''strcpy'', ''helper'')]"
  by (simp add: first_seen_def insert_new_def key_trunc_def NUL_def MAX_NAME_LEN_def)

lemma first_seen_eleven: "first_seen (map key_trunc eleven_keys) = eleven_keys"
  by (simp add: eleven_keys_def first_seen_def insert_new_def key_trunc_def NUL_def MAX_NAME_LEN_def)

lemma short_three:
  "list_all short_names [(''strcpy'', ''main''), (''strcpy'', ''helper''), (''strcpy'', ''helper'')]"
  by (simp add: short_names_def NUL_def MAX_NAME_LEN_def)

lemma short_eleven: "list_all short_names eleven_keys"
  by (simp add: eleven_keys_def short_names_def NUL_def MAX_NAME_LEN_def)

lemma main_helper_helper_run:
  "count (profile_data (log_calls clk [(''strcpy'', ''main''), (''strcpy'', ''helper''), (''strcpy'', ''helper'')] init_state) ! 0) = 1"
  "count (profile_data (log_calls clk [(''strcpy'', ''main''), (''strcpy'', ''helper''), (''strcpy'', ''helper'')] init_state) ! 1) = 2"
  "table_inv (log_calls clk [(''strcpy'', ''main''), (''strcpy'', ''helper''), (''strcpy'', ''helper'')] init_state)"
  using two_short_keys [OF short_literals(1,2) short_literals(1,3) strcpy_keys_differ,
      of 1 2 clk]
  by (simp_all add: numeral_2_eq_2)

text \<open>
  C7 at concrete runs. After one call from \<^verbatim>\<open>main\<close> and two from \<^verbatim>\<open>helper\<close> the
  line of \<^verbatim>\<open>main\<close> (count 1) comes before the line of \<^verbatim>\<open>helper\<close> (count 2). After
  one call from each of 11 functions the console has the 5 heading lines and 10
  call-site lines, those of the first 10 callers in the order of their calls.
\<close>

theorem C7_console_summary_witness:
  "console (fst (write_profile_data True (log_calls tick_clock
       [(''strcpy'', ''main''), (''strcpy'', ''helper''), (''strcpy'', ''helper'')] init_state)))
     = [Banner, TotalCalls 3, UniqueSites 2, WrittenTo ''dangerous_api_profile.json'', TopHeader,
        CallSite ''main'' ''strcpy'' 1 (Some (100 / 3)),
        CallSite ''helper'' ''strcpy'' 2 (Some (200 / 3))]
   \<and> map entry_key (entries (log_calls tick_clock
       [(''strcpy'', ''main''), (''strcpy'', ''helper''), (''strcpy'', ''helper'')] init_state))
     = [(''strcpy'', ''main''), (''strcpy'', ''helper'')]
   \<and> length (console (fst (write_profile_data True (log_calls tick_clock eleven_keys init_state)))) = 15
   \<and> map (\<lambda>l. case l of CallSite x y z p \<Rightarrow> (y, x) | _ \<Rightarrow> ([], []))
       (drop 5 (console (fst (write_profile_data True (log_calls tick_clock eleven_keys init_state)))))
     = take 10 eleven_keys"
proof -
  let ?ks = "[(''strcpy'', ''main''), (''strcpy'', ''helper''), (''strcpy'', ''helper'')]"
  let ?S = "log_calls tick_clock ?ks init_state"
  let ?T = "log_calls tick_clock eleven_keys init_state"
  note A = C7_console_summary [of tick_clock ?ks "''strcpy''" "''main''"]
  note B = C7_console_summary [of tick_clock eleven_keys "''strcpy''" "''main''"]
  note R = main_helper_helper_run [of tick_clock]
  have cap3: "length (first_seen (map key_trunc ?ks)) \<le> MAX_ENTRIES"
    unfolding first_seen_three by (simp add: MAX_ENTRIES_def)
  have keys3: "map entry_key (entries ?S) = [(''strcpy'', ''main''), (''strcpy'', ''helper'')]"
    using A [THEN conjunct2, THEN conjunct2, THEN conjunct2] short_three cap3
    unfolding first_seen_three by blast
  have "length (map entry_key (entries ?S)) = 2" unfolding keys3 by simp
  then have n: "num_entries ?S = 2" using R(3) by (simp add: entries_length del: log_calls.simps)
  have c1: "count (profile_data ?S ! Suc 0) = 2"
    using R(2) by (simp only: One_nat_def)
  have e: "take (num_entries ?S) (profile_data ?S) = [profile_data ?S ! 0, profile_data ?S ! Suc 0]"
    using entries_two [OF R(3) n] by (simp only: entries_def One_nat_def)
  have "map entry_key [profile_data ?S ! 0, profile_data ?S ! Suc 0]
          = [(''strcpy'', ''main''), (''strcpy'', ''helper'')]"
    using keys3 unfolding entries_def e .
  then have k: "c_str (api_name (profile_data ?S ! 0)) = ''strcpy''"
    "c_str (caller_name (profile_data ?S ! 0)) = ''main''"
    "c_str (api_name (profile_data ?S ! Suc 0)) = ''strcpy''"
    "c_str (caller_name (profile_data ?S ! Suc 0)) = ''helper''"
    by (simp_all add: entry_key_def del: log_calls.simps)
  have "(\<Sum>i < Suc (Suc 0). unat (count (profile_data ?S ! i))) = 3"
    by (simp add: R(1) c1 del: log_calls.simps)
  then have sum: "(\<Sum>i < num_entries ?S. unat (count (profile_data ?S ! i))) = 3"
    unfolding n by (simp only: numeral_2_eq_2)
  have con3: "console (fst (write_profile_data True ?S))
     = [Banner, TotalCalls 3, UniqueSites 2, WrittenTo ''dangerous_api_profile.json'', TopHeader,
        CallSite ''main'' ''strcpy'' 1 (Some (100 / 3)),
        CallSite ''helper'' ''strcpy'' 2 (Some (200 / 3))]"
    unfolding A [THEN conjunct1] sum e
    by (simp add: n k R(1) c1 del: log_calls.simps)
  have cap11: "length (first_seen (map key_trunc eleven_keys)) \<le> MAX_ENTRIES"
    unfolding first_seen_eleven by (simp add: eleven_keys_def MAX_ENTRIES_def)
  have keys11: "map entry_key (entries ?T) = eleven_keys"
    using B [THEN conjunct2, THEN conjunct2, THEN conjunct2] short_eleven cap11
    unfolding first_seen_eleven by blast
  have "length (map entry_key (entries ?T)) = 11" unfolding keys11 by (simp add: eleven_keys_def)
  then have len11: "length (entries ?T) = 11" by simp
  have len: "length (console (fst (write_profile_data True ?T))) = 15"
    unfolding B [THEN conjunct1] entries_def [symmetric] using len11 by simp
  have "map (\<lambda>l. case l of CallSite x y z p \<Rightarrow> (y, x) | _ \<Rightarrow> ([], []))
       (drop 5 (console (fst (write_profile_data True ?T))))
     = map entry_key (take 10 (entries ?T))"
    unfolding B [THEN conjunct1] entries_def [symmetric] by (simp add: entry_key_def)
  also have "\<dots> = take 10 eleven_keys" by (simp only: take_map [symmetric] keys11)
  finally show ?thesis using con3 keys3 len by blast
qed

section \<open>The claims about the instrumenter\<close>

lemma matches_api_iff: "matches_api name apis \<longleftrightarrow> name \<in> set apis"
  by (induction apis) auto

lemma is_dangerous_call_iff:
  "is_dangerous_call I \<longleftrightarrow>
     (\<exists>name args. inst_op I = CallInst (Some name) args \<and> \<not> isIntrinsic name
        \<and> name \<in> set DangerousAPIs)"
  by (auto simp: is_dangerous_call_def matches_api_iff split: opcode.splits option.splits)

text \<open>
  C3: the scan phase records an instruction of a function exactly when the function
  has a body, the instruction is a call instruction of that body whose callee is
  known (\<^verbatim>\<open>getCalledFunction\<close> is not null) and not an intrinsic, and the callee's
  name is a member of the Target API Set. A declaration is passed over: the function
  and the pass state, the diagnostics with it, stay as they are. Indirect calls and
  calls of intrinsics are never recorded.
\<close>

theorem C3_scan_phase:
  "(I \<in> set (CallsToInstrument F) \<longleftrightarrow>
      \<not> isDeclaration F \<and> I \<in> set (concat (blocks F))
      \<and> (\<exists>name args. inst_op I = CallInst (Some name) args \<and> \<not> isIntrinsic name
            \<and> name \<in> set DangerousAPIs))
   \<and> (isDeclaration F \<longrightarrow> run_function F st = (F, st) \<and> CallsToInstrument F = [])
   \<and> (\<forall>args. inst_op I = CallInst None args \<longrightarrow> I \<notin> set (CallsToInstrument F))
   \<and> (\<forall>name args. inst_op I = CallInst (Some name) args \<and> isIntrinsic name
         \<longrightarrow> I \<notin> set (CallsToInstrument F))"
proof -
  have 1: "I \<in> set (CallsToInstrument F) \<longleftrightarrow>
      \<not> isDeclaration F \<and> I \<in> set (concat (blocks F))
      \<and> (\<exists>name args. inst_op I = CallInst (Some name) args \<and> \<not> isIntrinsic name
            \<and> name \<in> set DangerousAPIs)"
    unfolding CallsToInstrument_def is_dangerous_call_iff [symmetric]
    by (cases "blocks F") (auto simp: isDeclaration_def)
  have 2: "isDeclaration F \<longrightarrow> run_function F st = (F, st) \<and> CallsToInstrument F = []"
    by (simp add: run_function_def CallsToInstrument_def isDeclaration_def)
  have 3: "\<forall>args. inst_op I = CallInst None args \<longrightarrow> I \<notin> set (CallsToInstrument F)"
    using 1 by auto
  have 4: "\<forall>name args. inst_op I = CallInst (Some name) args \<and> isIntrinsic name
         \<longrightarrow> I \<notin> set (CallsToInstrument F)"
    using 1 by auto
  show ?thesis using 1 2 3 4 by blast
qed

text \<open>
  C3 on the example module: of the four instructions of \<^verbatim>\<open>main\<close> the scan records
  the call of \<^verbatim>\<open>strcpy\<close> only, and the declaration is passed over.
\<close>

theorem C3_scan_phase_witness:
  "CallsToInstrument example_main
     = [\<lparr>inst_id = 0, inst_op = CallInst (Some ''strcpy'') [OtherOperand 0, OtherOperand 1]\<rparr>]
   \<and> \<lparr>inst_id = 0, inst_op = CallInst (Some ''strcpy'') [OtherOperand 0, OtherOperand 1]\<rparr>
       \<in> set (CallsToInstrument example_main)
   \<and> \<lparr>inst_id = 1, inst_op = CallInst None [OtherOperand 2]\<rparr>
       \<notin> set (CallsToInstrument example_main)
   \<and> \<lparr>inst_id = 2, inst_op = CallInst (Some ''llvm.memcpy.p0.p0.i64'') [OtherOperand 3]\<rparr>
       \<notin> set (CallsToInstrument example_main)
   \<and> run_function example_decl
        \<lparr>ps_globals = [], ps_next_id = 4, ps_diags = [], ps_modified = False\<rparr>
       = (example_decl, \<lparr>ps_globals = [], ps_next_id = 4, ps_diags = [], ps_modified = False\<rparr>)"
proof -
  let ?I0 = "\<lparr>inst_id = 0, inst_op = CallInst (Some ''strcpy'') [OtherOperand 0, OtherOperand 1]\<rparr>"
  let ?I1 = "\<lparr>inst_id = 1, inst_op = CallInst None [OtherOperand 2]\<rparr>"
  let ?I2 = "\<lparr>inst_id = 2, inst_op = CallInst (Some ''llvm.memcpy.p0.p0.i64'') [OtherOperand 3]\<rparr>"
  let ?st = "\<lparr>ps_globals = [], ps_next_id = 4, ps_diags = [], ps_modified = False\<rparr>"
  have body: "\<not> isDeclaration example_main" "isDeclaration example_decl"
    by (simp_all add: isDeclaration_def example_main_def example_decl_def)
  have mem: "?I0 \<in> set (concat (blocks example_main))"
    by (simp add: example_main_def)
  have a: "CallsToInstrument example_main = [?I0]"
    by (simp add: CallsToInstrument_def example_main_def is_dangerous_call_def
          isIntrinsic_def DangerousAPIs_def)
  have b: "?I0 \<in> set (CallsToInstrument example_main)"
    using C3_scan_phase [of ?I0 example_main ?st] body(1) mem
    by (simp add: isIntrinsic_def DangerousAPIs_def)
  have c: "?I1 \<notin> set (CallsToInstrument example_main)"
    using C3_scan_phase [of ?I1 example_main ?st] by simp
  have i: "isIntrinsic ''llvm.memcpy.p0.p0.i64''" by (simp add: isIntrinsic_def)
  have d: "?I2 \<notin> set (CallsToInstrument example_main)"
    using C3_scan_phase [of ?I2 example_main ?st] i by simp
  have e: "run_function example_decl ?st = (example_decl, ?st)"
    using C3_scan_phase [of ?I0 example_decl ?st] body(2) by blast
  show ?thesis using a b c d e by blast
qed

lemma hooks_inserted_refl: "hooks_inserted (\<lambda>I. False) lo gs caller bb bb"
  by (induction bb) simp_all

lemma hooks_inserted_cong:
  "(\<And>I. I \<in> set bb \<Longrightarrow> P I = Q I) \<Longrightarrow>
   hooks_inserted P lo gs caller bb bb' = hooks_inserted Q lo gs caller bb bb'"
  by (induction bb arbitrary: bb') (auto split: list.splits)

lemma is_hook_call_mono:
  assumes "is_hook_call gs callee caller H" "prefix gs gs'"
  shows "is_hook_call gs' callee caller H"
proof -
  obtain zs where zs: "gs' = gs @ zs" using assms(2) by (auto simp: prefix_def)
  show ?thesis
    using assms(1) unfolding is_hook_call_def zs
    by (auto simp: nth_append split: opcode.splits option.splits list.splits operand.splits)
qed

lemma hooks_inserted_mono:
  "hooks_inserted P lo gs caller bb bb' \<Longrightarrow> prefix gs gs' \<Longrightarrow> lo' \<le> lo \<Longrightarrow>
   hooks_inserted P lo' gs' caller bb bb'"
proof (induction bb arbitrary: bb')
  case Nil
  then show ?case by simp
next
  case (Cons I bb)
  show ?case
  proof (cases "P I")
    case True
    then obtain H rest where b: "bb' = H # I # rest" "is_hook_call gs (called_name I) caller H"
      "lo \<le> inst_id H" "hooks_inserted P lo gs caller bb rest"
      using Cons.prems(1) by (auto split: list.splits)
    have "hooks_inserted P lo' gs' caller bb rest"
      by (rule Cons.IH [OF b(4) Cons.prems(2,3)])
    then show ?thesis
      using True b is_hook_call_mono [OF b(2) Cons.prems(2)] Cons.prems(3) by simp
  next
    case False
    then obtain rest where b: "bb' = I # rest" "hooks_inserted P lo gs caller bb rest"
      using Cons.prems(1) by (auto split: list.splits)
    have "hooks_inserted P lo' gs' caller bb rest"
      by (rule Cons.IH [OF b(2) Cons.prems(2,3)])
    then show ?thesis using False b by simp
  qed
qed

lemma hooks_inserted_step:
  assumes "hooks_inserted P lo gs caller bb bb'"
    and "\<not> P CI"
    and "\<And>I. I \<in> set bb \<Longrightarrow> inst_id I = inst_id CI \<Longrightarrow> I = CI"
    and "inst_id CI < lo"
    and "is_hook_call gs (called_name CI) caller new" "lo \<le> inst_id new"
  shows "hooks_inserted (\<lambda>I. P I \<or> I = CI) lo gs caller bb
           (concat (map (\<lambda>I. if inst_id I = inst_id CI then [new, I] else [I]) bb'))"
  using assms(1,3)
proof (induction bb arbitrary: bb')
  case Nil
  then show ?case by simp
next
  case (Cons I bb)
  have uniq: "\<And>J. J \<in> set bb \<Longrightarrow> inst_id J = inst_id CI \<Longrightarrow> J = CI"
    using Cons.prems(2) by simp
  show ?case
  proof (cases "P I")
    case True
    then obtain H rest where b: "bb' = H # I # rest" "is_hook_call gs (called_name I) caller H"
      "lo \<le> inst_id H" "hooks_inserted P lo gs caller bb rest"
      using Cons.prems(1) by (auto split: list.splits)
    have "I \<noteq> CI" using True assms(2) by auto
    then have nI: "inst_id I \<noteq> inst_id CI" using Cons.prems(2) [of I] by auto
    have nH: "inst_id H \<noteq> inst_id CI" using b(3) assms(4) by simp
    show ?thesis
      using True b(2,3) nI nH Cons.IH [OF b(4) uniq] by (simp add: b(1))
  next
    case False
    then obtain rest where b: "bb' = I # rest" "hooks_inserted P lo gs caller bb rest"
      using Cons.prems(1) by (auto split: list.splits)
    show ?thesis
    proof (cases "I = CI")
      case True
      then show ?thesis
        using assms(5,6) Cons.IH [OF b(2) uniq] by (simp add: b(1))
    next
      case ne: False
      then have "inst_id I \<noteq> inst_id CI" using Cons.prems(2) [of I] by auto
      then show ?thesis
        using False ne Cons.IH [OF b(2) uniq] by (simp add: b(1))
    qed
  qed
qed

lemma insert_before_step:
  assumes "list_all2 (hooks_inserted P lo gs caller) bbs0 bbs"
    and "\<not> P CI"
    and "\<And>I. I \<in> set (concat bbs0) \<Longrightarrow> inst_id I = inst_id CI \<Longrightarrow> I = CI"
    and "inst_id CI < lo"
    and "is_hook_call gs (called_name CI) caller new" "lo \<le> inst_id new"
  shows "list_all2 (hooks_inserted (\<lambda>I. P I \<or> I = CI) lo gs caller) bbs0
           (insert_before (inst_id CI) new bbs)"
proof -
  have "list_all2 (\<lambda>bb bb'. hooks_inserted (\<lambda>I. P I \<or> I = CI) lo gs caller bb
           (concat (map (\<lambda>I. if inst_id I = inst_id CI then [new, I] else [I]) bb'))) bbs0 bbs"
    using assms(1)
  proof (rule list.rel_mono_strong)
    fix bb bb'
    assume "bb \<in> set bbs0" "hooks_inserted P lo gs caller bb bb'"
    then show "hooks_inserted (\<lambda>I. P I \<or> I = CI) lo gs caller bb
           (concat (map (\<lambda>I. if inst_id I = inst_id CI then [new, I] else [I]) bb'))"
      using assms(2,3,4,5,6) by (intro hooks_inserted_step) auto
  qed
  then show ?thesis by (simp add: insert_before_def list_all2_map2)
qed

text \<open>One iteration of the rewrite loop, for a call the scan phase recorded.\<close>

lemma instrument_call_dangerous:
  assumes "is_dangerous_call CI"
  obtains new st' where
    "instrument_call caller CI (bbs, st) = (insert_before (inst_id CI) new bbs, st')"
    "is_hook_call (ps_globals st') (called_name CI) caller new"
    "inst_id new = ps_next_id st"
    "ps_next_id st' = Suc (ps_next_id st)"
    "ps_globals st' = ps_globals st @ [called_name CI, caller]"
    "ps_modified st'"
    "length (ps_diags st') = Suc (length (ps_diags st))"
proof -
  obtain callee args where op: "inst_op CI = CallInst (Some callee) args"
    using assms by (auto simp: is_dangerous_call_def split: opcode.splits option.splits)
  let ?new = "\<lparr>inst_id = ps_next_id st,
               inst_op = CallInst (Some ''profiling_log'')
                 [GlobalString (length (ps_globals st)), GlobalString (Suc (length (ps_globals st)))]\<rparr>"
  let ?st' = "st\<lparr>ps_globals := ps_globals st @ [callee, caller],
                 ps_next_id := Suc (ps_next_id st), ps_modified := True,
                 ps_diags := ps_diags st @ [''Instrumented '' @ callee @ '' in function '' @ caller]\<rparr>"
  have 1: "instrument_call caller CI (bbs, st) = (insert_before (inst_id CI) ?new bbs, ?st')"
    by (simp add: instrument_call_def op CreateGlobalStringPtr_def Let_def)
  have 2: "is_hook_call (ps_globals ?st') (called_name CI) caller ?new"
    by (simp add: is_hook_call_def called_name_def op nth_append)
  show ?thesis
    by (rule that [OF 1 2]) (simp_all add: called_name_def op)
qed

lemma fold_instrument_call:
  assumes "list_all2 (hooks_inserted P lo (ps_globals st) caller) bbs0 bbs"
    and "distinct cs"
    and "\<And>CI. CI \<in> set cs \<Longrightarrow> is_dangerous_call CI \<and> \<not> P CI \<and> inst_id CI < lo"
    and "\<And>CI I. CI \<in> set cs \<Longrightarrow> I \<in> set (concat bbs0) \<Longrightarrow> inst_id I = inst_id CI \<Longrightarrow> I = CI"
    and "lo \<le> ps_next_id st"
    and "fold (instrument_call caller) cs (bbs, st) = (bbs', st')"
  shows "list_all2 (hooks_inserted (\<lambda>I. P I \<or> I \<in> set cs) lo (ps_globals st') caller) bbs0 bbs'
       \<and> prefix (ps_globals st) (ps_globals st')
       \<and> ps_next_id st \<le> ps_next_id st'
       \<and> ps_modified st' = (ps_modified st \<or> cs \<noteq> [])
       \<and> length (ps_diags st') = length (ps_diags st) + length cs"
  using assms
proof (induction cs arbitrary: P bbs st)
  case Nil
  have "bbs' = bbs" "st' = st" using Nil.prems(6) by simp_all
  then show ?case using Nil.prems(1) by simp
next
  case (Cons CI cs)
  have "CI \<in> set (CI # cs)" by simp
  then have "is_dangerous_call CI \<and> \<not> P CI \<and> inst_id CI < lo"
    by (rule Cons.prems(3))
  then have CI: "is_dangerous_call CI" "\<not> P CI" "inst_id CI < lo"
    by simp_all
  obtain new st1 where s: 
    "instrument_call caller CI (bbs, st) = (insert_before (inst_id CI) new bbs, st1)"
    "is_hook_call (ps_globals st1) (called_name CI) caller new"
    "inst_id new = ps_next_id st"
    "ps_next_id st1 = Suc (ps_next_id st)"
    "ps_globals st1 = ps_globals st @ [called_name CI, caller]"
    "ps_modified st1"
    "length (ps_diags st1) = Suc (length (ps_diags st))"
    by (rule instrument_call_dangerous [OF CI(1), of caller bbs st])
  have pre: "prefix (ps_globals st) (ps_globals st1)" by (simp add: s(5))
  have old: "list_all2 (hooks_inserted P lo (ps_globals st1) caller) bbs0 bbs"
    using Cons.prems(1)
    by (rule list_all2_mono) (rule hooks_inserted_mono [OF _ pre order_refl])
  have uniq: "I = CI" if "I \<in> set (concat bbs0)" "inst_id I = inst_id CI" for I
    by (rule Cons.prems(4) [OF _ that]) simp
  have lo_new: "lo \<le> inst_id new" using Cons.prems(5) s(3) by simp
  have step: "list_all2 (hooks_inserted (\<lambda>I. P I \<or> I = CI) lo (ps_globals st1) caller) bbs0
                (insert_before (inst_id CI) new bbs)"
    by (rule insert_before_step [OF old CI(2) uniq CI(3) s(2) lo_new])
  have rest: "fold (instrument_call caller) cs (insert_before (inst_id CI) new bbs, st1) = (bbs', st')"
    using Cons.prems(6) by (simp add: s(1))
  have d: "distinct cs" "CI \<notin> set cs" using Cons.prems(2) by simp_all
  have c3: "is_dangerous_call CI' \<and> \<not> (P CI' \<or> CI' = CI) \<and> inst_id CI' < lo"
    if "CI' \<in> set cs" for CI'
  proof -
    have m: "CI' \<in> set (CI # cs)" and ne: "CI' \<noteq> CI" using that d(2) by auto
    have "is_dangerous_call CI' \<and> \<not> P CI' \<and> inst_id CI' < lo"
      using m by (rule Cons.prems(3))
    then show ?thesis using ne by simp
  qed
  have c4: "I = CI'" if "CI' \<in> set cs" "I \<in> set (concat bbs0)" "inst_id I = inst_id CI'"
    for CI' I
    by (rule Cons.prems(4) [OF _ that(2,3)]) (simp add: that(1))
  have c5: "lo \<le> ps_next_id st1" using Cons.prems(5) s(4) by simp
  note IH = Cons.IH [OF step d(1) c3 c4 c5 rest]
  have eq: "(\<lambda>I. (P I \<or> I = CI) \<or> I \<in> set cs) = (\<lambda>I. P I \<or> I \<in> set (CI # cs))"
    by auto
  have r1: "list_all2 (hooks_inserted (\<lambda>I. P I \<or> I \<in> set (CI # cs)) lo (ps_globals st') caller)
              bbs0 bbs'"
    using IH [THEN conjunct1] by (simp only: eq)
  have "prefix (ps_globals st1) (ps_globals st')"
    by (rule IH [THEN conjunct2, THEN conjunct1])
  then have r2: "prefix (ps_globals st) (ps_globals st')"
    using pre by (rule prefix_order.trans [rotated])
  note IH2 = IH [THEN conjunct2, THEN conjunct2]
  have r3: "ps_next_id st \<le> ps_next_id st'"
    using IH2 [THEN conjunct1] s(4) by linarith
  have m': "ps_modified st' = (ps_modified st1 \<or> cs \<noteq> [])"
    by (rule IH2 [THEN conjunct2, THEN conjunct1])
  have "ps_modified st'" unfolding m' using s(6) by (rule disjI1)
  then have r4: "ps_modified st' = (ps_modified st \<or> CI # cs \<noteq> [])"
    by (simp only: list.distinct simp_thms)
  have l': "length (ps_diags st') = length (ps_diags st1) + length cs"
    by (rule IH2 [THEN conjunct2, THEN conjunct2])
  have r5: "length (ps_diags st') = length (ps_diags st) + length (CI # cs)"
    unfolding l' s(7) by (simp only: list.size add_Suc add_Suc_right)
  show ?case by (intro conjI r1 r2 r3 r4 r5)
qed

lemma wf_function_facts:
  assumes "wf_function lo F"
  shows "distinct (CallsToInstrument F)"
    and "\<And>CI. CI \<in> set (CallsToInstrument F) \<Longrightarrow>
           is_dangerous_call CI \<and> \<not> False \<and> inst_id CI < lo"
    and "\<And>CI I. CI \<in> set (CallsToInstrument F) \<Longrightarrow> I \<in> set (concat (blocks F)) \<Longrightarrow>
           inst_id I = inst_id CI \<Longrightarrow> I = CI"
proof -
  have d: "distinct (map inst_id (concat (blocks F)))"
    and b: "\<forall>I \<in> set (concat (blocks F)). inst_id I < lo"
    using assms by (simp_all add: wf_function_def list_all_iff)
  have dc: "distinct (concat (blocks F))" and inj: "inj_on inst_id (set (concat (blocks F)))"
    using d by (simp_all only: distinct_map)
  show "distinct (CallsToInstrument F)"
    unfolding CallsToInstrument_def using dc by (rule distinct_filter)
  show "is_dangerous_call CI \<and> \<not> False \<and> inst_id CI < lo"
    if "CI \<in> set (CallsToInstrument F)" for CI
    using that b by (auto simp: CallsToInstrument_def)
  show "I = CI"
    if "CI \<in> set (CallsToInstrument F)" "I \<in> set (concat (blocks F))" "inst_id I = inst_id CI"
    for CI I
  proof -
    have "CI \<in> set (concat (blocks F))" using that(1) by (simp add: CallsToInstrument_def)
    with inj that(2,3) show ?thesis by (auto dest: inj_onD)
  qed
qed

lemma instrumented_mono:
  assumes "instrumented gs F F'" "prefix gs gs'"
  shows "instrumented gs' F F'"
proof -
  have "list_all2 (hooks_inserted is_dangerous_call 0 gs (fn_name F)) (blocks F) (blocks F')"
    using assms(1) by (simp add: instrumented_def)
  then have "list_all2 (hooks_inserted is_dangerous_call 0 gs' (fn_name F)) (blocks F) (blocks F')"
    by (rule list_all2_mono) (rule hooks_inserted_mono [OF _ assms(2) order_refl])
  then show ?thesis using assms(1) by (simp add: instrumented_def)
qed

lemma run_function_instrumented:
  assumes "wf_function lo F" "lo \<le> ps_next_id st" "run_function F st = (F', st')"
  shows "instrumented (ps_globals st') F F'
       \<and> prefix (ps_globals st) (ps_globals st')
       \<and> ps_next_id st \<le> ps_next_id st'
       \<and> ps_modified st' = (ps_modified st \<or> CallsToInstrument F \<noteq> [])
       \<and> length (ps_diags st') = length (ps_diags st) + length (CallsToInstrument F)"
proof (cases "isDeclaration F")
  case True
  then have "F' = F" "st' = st" "blocks F = []" "CallsToInstrument F = []"
    using assms(3) by (simp_all add: run_function_def isDeclaration_def CallsToInstrument_def)
  then show ?thesis by (simp add: instrumented_def)
next
  case False
  obtain bbs' st2 where f:
    "fold (instrument_call (fn_name F)) (CallsToInstrument F) (blocks F, st) = (bbs', st2)"
    by (cases "fold (instrument_call (fn_name F)) (CallsToInstrument F) (blocks F, st)")
  have r: "F' = F\<lparr>blocks := bbs'\<rparr>" "st' = st2"
    using assms(3) False by (simp_all add: run_function_def f)
  have base: "list_all2 (hooks_inserted (\<lambda>I. False) lo (ps_globals st) (fn_name F))
                (blocks F) (blocks F)"
    by (rule list_all2_refl) (rule hooks_inserted_refl)
  note W = wf_function_facts [OF assms(1)]
  note R = fold_instrument_call [OF base W(1) W(2) W(3) assms(2) f]
  have "list_all2 (hooks_inserted (\<lambda>I. False \<or> I \<in> set (CallsToInstrument F)) lo
                      (ps_globals st2) (fn_name F)) (blocks F) bbs'"
    by (rule R [THEN conjunct1])
  then have "list_all2 (hooks_inserted is_dangerous_call 0 (ps_globals st2) (fn_name F))
               (blocks F) bbs'"
  proof (rule list.rel_mono_strong)
    fix bb bb'
    assume bb: "bb \<in> set (blocks F)"
      and h: "hooks_inserted (\<lambda>I. False \<or> I \<in> set (CallsToInstrument F)) lo
                (ps_globals st2) (fn_name F) bb bb'"
    have c: "(False \<or> I \<in> set (CallsToInstrument F)) = is_dangerous_call I"
      if "I \<in> set bb" for I
      using bb that by (auto simp: CallsToInstrument_def)
    have "hooks_inserted (\<lambda>I. False \<or> I \<in> set (CallsToInstrument F)) lo
                (ps_globals st2) (fn_name F) bb bb'
          = hooks_inserted is_dangerous_call lo (ps_globals st2) (fn_name F) bb bb'"
      by (rule hooks_inserted_cong) (rule c)
    then have "hooks_inserted is_dangerous_call lo (ps_globals st2) (fn_name F) bb bb'"
      using h by (rule iffD1)
    then show "hooks_inserted is_dangerous_call 0 (ps_globals st2) (fn_name F) bb bb'"
      by (rule hooks_inserted_mono) simp_all
  qed
  then have i: "instrumented (ps_globals st') F F'"
    by (simp add: instrumented_def r)
  show ?thesis
    using i R [THEN conjunct2] by (simp only: r(2))
qed

lemma run_functions_instrumented:
  assumes "list_all (wf_function lo) Fs" "lo \<le> ps_next_id st" "run_functions Fs st = (Fs', st')"
  shows "list_all2 (instrumented (ps_globals st')) Fs Fs'
       \<and> prefix (ps_globals st) (ps_globals st')
       \<and> ps_next_id st \<le> ps_next_id st'
       \<and> ps_modified st' = (ps_modified st \<or> concat (map CallsToInstrument Fs) \<noteq> [])
       \<and> length (ps_diags st')
           = length (ps_diags st) + length (concat (map CallsToInstrument Fs))"
  using assms
proof (induction Fs arbitrary: st Fs' st')
  case Nil
  have "Fs' = []" "st' = st" using Nil.prems(3) by simp_all
  then show ?case by simp
next
  case (Cons F Fs)
  obtain F1 st1 where h: "run_function F st = (F1, st1)"
    by (cases "run_function F st")
  obtain Fs2 st2 where t: "run_functions Fs st1 = (Fs2, st2)"
    by (cases "run_functions Fs st1")
  have r: "Fs' = F1 # Fs2" "st' = st2"
    using Cons.prems(3) by (simp_all add: h t)
  have wfF: "wf_function lo F" and wfFs: "list_all (wf_function lo) Fs"
    using Cons.prems(1) by simp_all
  note H = run_function_instrumented [OF wfF Cons.prems(2) h]
  have lo1: "lo \<le> ps_next_id st1"
    using H [THEN conjunct2, THEN conjunct2, THEN conjunct1] Cons.prems(2) by linarith
  note T = Cons.IH [OF wfFs lo1 t]
  have p1: "prefix (ps_globals st) (ps_globals st1)"
    by (rule H [THEN conjunct2, THEN conjunct1])
  have p2: "prefix (ps_globals st1) (ps_globals st2)"
    by (rule T [THEN conjunct2, THEN conjunct1])
  have i1: "instrumented (ps_globals st2) F F1"
    by (rule instrumented_mono [OF H [THEN conjunct1] p2])
  have a: "list_all2 (instrumented (ps_globals st2)) (F # Fs) (F1 # Fs2)"
    using i1 T [THEN conjunct1] by (rule list_all2_Cons [THEN iffD2, OF conjI])
  have b: "prefix (ps_globals st) (ps_globals st2)"
    using p2 p1 by (rule prefix_order.trans [rotated])
  note H3 = H [THEN conjunct2, THEN conjunct2] and T3 = T [THEN conjunct2, THEN conjunct2]
  have c: "ps_next_id st \<le> ps_next_id st2"
    using H3 [THEN conjunct1] T3 [THEN conjunct1] by linarith
  have m1: "ps_modified st1 = (ps_modified st \<or> CallsToInstrument F \<noteq> [])"
    by (rule H3 [THEN conjunct2, THEN conjunct1])
  have m2: "ps_modified st2 = (ps_modified st1 \<or> concat (map CallsToInstrument Fs) \<noteq> [])"
    by (rule T3 [THEN conjunct2, THEN conjunct1])
  have d: "ps_modified st2 = (ps_modified st \<or> concat (map CallsToInstrument (F # Fs)) \<noteq> [])"
    unfolding m2 m1 by auto
  have l1: "length (ps_diags st1) = length (ps_diags st) + length (CallsToInstrument F)"
    by (rule H3 [THEN conjunct2, THEN conjunct2])
  have l2: "length (ps_diags st2)
      = length (ps_diags st1) + length (concat (map CallsToInstrument Fs))"
    by (rule T3 [THEN conjunct2, THEN conjunct2])
  have e: "length (ps_diags st2)
      = length (ps_diags st) + length (concat (map CallsToInstrument (F # Fs)))"
    unfolding l2 l1 by simp
  show ?case unfolding r by (intro conjI a b c d e)
qed

lemma run_function_untouched:
  assumes "CallsToInstrument F = []"
  shows "run_function F st = (F, st)"
  by (simp add: run_function_def assms)

lemma run_functions_untouched:
  "concat (map CallsToInstrument Fs) = [] \<Longrightarrow> run_functions Fs st = (Fs, st)"
  by (induction Fs) (simp_all add: run_function_untouched)

lemma getOrInsertFunction_simps:
  "m_global_strings (getOrInsertFunction name M) = m_global_strings M"
  "m_next_inst_id (getOrInsertFunction name M) = m_next_inst_id M"
  "call_sites (getOrInsertFunction name M) = call_sites M"
  "wf_module M \<Longrightarrow> wf_module (getOrInsertFunction name M)"
  by (simp_all add: getOrInsertFunction_def call_sites_def CallsToInstrument_def
        wf_module_def wf_function_def)

text \<open>
  C4, as amended: in the module the pass returns, every function is the function of
  the module it was given (with the declaration of the logging hook added, see below)
  instrumented: same name, same blocks, and in each block one call of
  \<^verbatim>\<open>profiling_log\<close> right before every call the scan phase recorded, its two
  arguments string constants holding the callee's name and the name of the enclosing
  function; every other instruction, the recorded calls with their operands included,
  is where and what it was. The string constants the module had are kept. One
  diagnostic line is written per call site, and the pass answers that analyses are
  not preserved exactly when there is at least one call site. When there is none,
  nothing is changed but for one thing: the pass has declared \<^verbatim>\<open>profiling_log\<close> in
  the module if the module had no function of that name
  (\<^verbatim>\<open>getOrInsertFunction\<close> runs before the scan). Addresses of instructions are
  unique (\<open>wf_module\<close>).
\<close>

theorem C4_rewrite_phase:
  assumes "wf_module M"
  shows "list_all2 (instrumented (m_global_strings (fst (run M))))
           (m_functions (getOrInsertFunction ''profiling_log'' M)) (m_functions (fst (run M)))
       \<and> prefix (m_global_strings M) (m_global_strings (fst (run M)))
       \<and> length (fst (snd (run M))) = length (call_sites M)
       \<and> (snd (snd (run M)) = PreservedNone \<longleftrightarrow> call_sites M \<noteq> [])
       \<and> (snd (snd (run M)) = PreservedAll
            \<longrightarrow> fst (run M) = getOrInsertFunction ''profiling_log'' M)"
proof -
  let ?M1 = "getOrInsertFunction ''profiling_log'' M"
  let ?st0 = "\<lparr>ps_globals = m_global_strings ?M1, ps_next_id = m_next_inst_id ?M1,
               ps_diags = [], ps_modified = False\<rparr>"
  obtain Fs st where rf: "run_functions (m_functions ?M1) ?st0 = (Fs, st)"
    by (cases "run_functions (m_functions ?M1) ?st0")
  have run: "run M = (\<lparr>m_functions = Fs, m_global_strings = ps_globals st,
                        m_next_inst_id = ps_next_id st\<rparr>,
                      ps_diags st, if ps_modified st then PreservedNone else PreservedAll)"
    by (simp add: run_def Let_def rf)
  have wf: "list_all (wf_function (m_next_inst_id ?M1)) (m_functions ?M1)"
    using getOrInsertFunction_simps(4) [OF assms, of "''profiling_log''"]
    by (simp only: wf_module_def)
  have lo: "m_next_inst_id ?M1 \<le> ps_next_id ?st0" by simp
  note R = run_functions_instrumented [OF wf lo rf]
  have cs: "concat (map CallsToInstrument (m_functions ?M1)) = call_sites M"
    using getOrInsertFunction_simps(3) [of "''profiling_log''" M] by (simp only: call_sites_def)
  have 1: "list_all2 (instrumented (ps_globals st)) (m_functions ?M1) Fs"
    by (rule R [THEN conjunct1])
  have 2: "prefix (m_global_strings M) (ps_globals st)"
    using R [THEN conjunct2, THEN conjunct1] by (simp add: getOrInsertFunction_simps)
  note R3 = R [THEN conjunct2, THEN conjunct2, THEN conjunct2]
  have 3: "ps_modified st = (call_sites M \<noteq> [])"
    using R3 [THEN conjunct1] by (simp add: cs)
  have 4: "length (ps_diags st) = length (call_sites M)"
    using R3 [THEN conjunct2] by (simp add: cs)
  have 5: "fst (run M) = ?M1" if "\<not> ps_modified st"
  proof -
    have "concat (map CallsToInstrument (m_functions ?M1)) = []"
      using that 3 cs by simp
    then have "run_functions (m_functions ?M1) ?st0 = (m_functions ?M1, ?st0)"
      by (rule run_functions_untouched)
    then have "Fs = m_functions ?M1" "st = ?st0" using rf by simp_all
    then show ?thesis by (simp add: run)
  qed
  show ?thesis
    using 1 2 3 4 5 by (simp add: run)
qed

lemma example_module_wf: "wf_module example_module"
  by (simp add: wf_module_def wf_function_def example_module_def example_main_def example_decl_def)

lemma example_call_sites:
  "call_sites example_module
     = [\<lparr>inst_id = 0, inst_op = CallInst (Some ''strcpy'') [OtherOperand 0, OtherOperand 1]\<rparr>]"
  by (simp add: call_sites_def example_module_def CallsToInstrument_def example_main_def
        example_decl_def is_dangerous_call_def isIntrinsic_def DangerousAPIs_def)

text \<open>The pass on the example module, computed.\<close>

lemma run_example_module:
  "run example_module =
     (\<lparr>m_functions =
         [\<lparr>fn_name = ''main'',
           blocks = [[\<lparr>inst_id = 4, inst_op = CallInst (Some ''profiling_log'')
                                          [GlobalString 0, GlobalString 1]\<rparr>,
                      \<lparr>inst_id = 0, inst_op = CallInst (Some ''strcpy'')
                                          [OtherOperand 0, OtherOperand 1]\<rparr>,
                      \<lparr>inst_id = 1, inst_op = CallInst None [OtherOperand 2]\<rparr>],
                     [\<lparr>inst_id = 2, inst_op = CallInst (Some ''llvm.memcpy.p0.p0.i64'')
                                          [OtherOperand 3]\<rparr>,
                      \<lparr>inst_id = 3, inst_op = OtherInst 0\<rparr>]]\<rparr>,
          \<lparr>fn_name = ''strcpy'', blocks = []\<rparr>,
          \<lparr>fn_name = ''profiling_log'', blocks = []\<rparr>],
       m_global_strings = [''strcpy'', ''main''], m_next_inst_id = 5\<rparr>,
      [''Instrumented strcpy in function main''],
      PreservedNone)"
  by (simp add: run_def getOrInsertFunction_def example_module_def example_main_def
        example_decl_def run_function_def isDeclaration_def CallsToInstrument_def
        is_dangerous_call_def isIntrinsic_def DangerousAPIs_def instrument_call_def
        CreateGlobalStringPtr_def insert_before_def Let_def)

text \<open>
  C4 on the example module (one call site, analyses not preserved), and on a module
  that holds one declaration only (no call site: the declaration of the hook is all
  that is added).
\<close>

theorem C4_rewrite_phase_witness:
  "list_all2 (instrumented (m_global_strings (fst (run example_module))))
     (m_functions (getOrInsertFunction ''profiling_log'' example_module))
     (m_functions (fst (run example_module)))
   \<and> prefix (m_global_strings example_module) (m_global_strings (fst (run example_module)))
   \<and> length (fst (snd (run example_module))) = 1
   \<and> snd (snd (run example_module)) = PreservedNone
   \<and> fst (run \<lparr>m_functions = [example_decl], m_global_strings = [], m_next_inst_id = 0\<rparr>)
       = \<lparr>m_functions = [example_decl, \<lparr>fn_name = ''profiling_log'', blocks = []\<rparr>],
          m_global_strings = [], m_next_inst_id = 0\<rparr>"
proof -
  let ?D = "\<lparr>m_functions = [example_decl], m_global_strings = [], m_next_inst_id = 0\<rparr>"
  note T = C4_rewrite_phase [OF example_module_wf]
  have wfD: "wf_module ?D"
    by (simp add: wf_module_def wf_function_def example_decl_def)
  note D = C4_rewrite_phase [OF wfD]
  have csD: "call_sites ?D = []"
    by (simp add: call_sites_def CallsToInstrument_def example_decl_def)
  have "snd (snd (run ?D)) \<noteq> PreservedNone"
    using D [THEN conjunct2, THEN conjunct2, THEN conjunct2, THEN conjunct1] csD by simp
  then have "snd (snd (run ?D)) = PreservedAll"
    by (cases "snd (snd (run ?D))") simp_all
  then have "fst (run ?D) = getOrInsertFunction ''profiling_log'' ?D"
    using D by blast
  then have d: "fst (run ?D) = \<lparr>m_functions = [example_decl, \<lparr>fn_name = ''profiling_log'', blocks = []\<rparr>],
          m_global_strings = [], m_next_inst_id = 0\<rparr>"
    by (simp add: getOrInsertFunction_def example_decl_def)
  have n: "snd (snd (run example_module)) = PreservedNone"
    using T [THEN conjunct2, THEN conjunct2, THEN conjunct2, THEN conjunct1]
    by (simp add: example_call_sites)
  have l: "length (fst (snd (run example_module))) = 1"
    using T [THEN conjunct2, THEN conjunct2, THEN conjunct1] by (simp add: example_call_sites)
  show ?thesis
    using T [THEN conjunct1] T [THEN conjunct2, THEN conjunct1] l n d by (intro conjI)
qed

text \<open>
  C4 as stated fails: a module whose only function calls nothing is returned with a
  declaration of \<^verbatim>\<open>profiling_log\<close> added, and the pass answers that all analyses
  are preserved.
\<close>

theorem C4_declaration_added:
  "snd (snd (run \<lparr>m_functions = [\<lparr>fn_name = ''main'',
                                   blocks = [[\<lparr>inst_id = 0, inst_op = OtherInst 0\<rparr>]]\<rparr>],
                  m_global_strings = [], m_next_inst_id = 1\<rparr>)) = PreservedAll
   \<and> fst (run \<lparr>m_functions = [\<lparr>fn_name = ''main'',
                                 blocks = [[\<lparr>inst_id = 0, inst_op = OtherInst 0\<rparr>]]\<rparr>],
                m_global_strings = [], m_next_inst_id = 1\<rparr>)
       = \<lparr>m_functions = [\<lparr>fn_name = ''main'',
                            blocks = [[\<lparr>inst_id = 0, inst_op = OtherInst 0\<rparr>]]\<rparr>,
                          \<lparr>fn_name = ''profiling_log'', blocks = []\<rparr>],
          m_global_strings = [], m_next_inst_id = 1\<rparr>
   \<and> fst (run \<lparr>m_functions = [\<lparr>fn_name = ''main'',
                                 blocks = [[\<lparr>inst_id = 0, inst_op = OtherInst 0\<rparr>]]\<rparr>],
                m_global_strings = [], m_next_inst_id = 1\<rparr>)
       \<noteq> \<lparr>m_functions = [\<lparr>fn_name = ''main'',
                                 blocks = [[\<lparr>inst_id = 0, inst_op = OtherInst 0\<rparr>]]\<rparr>],
                m_global_strings = [], m_next_inst_id = 1\<rparr>"
  by (simp add: run_def getOrInsertFunction_def run_function_def isDeclaration_def
        CallsToInstrument_def is_dangerous_call_def Let_def)

end
